theory Spec2Isabelle
  imports Main "HOL-Library.Word" "HOL-Library.Multiset"
begin

section \<open>Data model of matrixmarket.hpp\<close>

text \<open>
  The templates are instantiated with an unsigned coordinate type of \<open>LENGTH('a)\<close> bits
  (the demo programs use \<open>unsigned int\<close>), written \<open>'a word\<close>, and an arbitrary value
  type \<open>'v\<close>. The structs are records over the two type parameters, as the templates are.
\<close>

datatype SymmetryType = GENERAL | SYMMETRIC

datatype ValueFormat = REAL | INTEGER | PATTERN

record 'c Header =
  symmetry :: SymmetryType
  value_type :: ValueFormat
  num_rows :: 'c
  num_cols :: 'c
  num_nonzeros :: 'c

record ('c, 'v) Nonzero =
  row :: 'c
  col :: 'c
  "value" :: 'v

record ('c, 'v) CSRMatrix =
  num_rows :: 'c
  num_cols :: 'c
  num_nonzeros :: 'c
  row_offsets :: "'c list"
  col_indices :: "'c list"
  "values" :: "'v list"

record ('c, 'v) CSCMatrix =
  num_rows :: 'c
  num_cols :: 'c
  num_nonzeros :: 'c
  col_offsets :: "'c list"
  row_indices :: "'c list"
  "values" :: "'v list"

text \<open>
  Every \<open>throw std::invalid_argument(msg)\<close> of the source is the error value
  \<open>FormatError msg\<close>; the \<open>throw new std::invalid_argument(msg)\<close> of a file that
  cannot be opened is \<open>IOError msg\<close>.
\<close>

datatype error = FormatError string | IOError string

section \<open>Input streams\<close>

text \<open>
  A \<open>std::istream\<close> (the \<open>std::ifstream\<close> over the file, the \<open>std::istringstream\<close>
  over a line): the characters not yet read and the two state bits the code depends on.
\<close>

record istream =
  buffer :: string
  eofbit :: bool
  failbit :: bool

definition open_stream :: "string \<Rightarrow> istream" where
  "open_stream s = \<lparr>buffer = s, eofbit = False, failbit = False\<rparr>"

definition good :: "istream \<Rightarrow> bool" where
  "good f \<longleftrightarrow> \<not> eofbit f \<and> \<not> failbit f"

text \<open>
  \<open>std::getline(is, str, delim)\<close>. When the stream is not good the sentry fails: failbit
  is set and \<open>str\<close> is left as it was. Otherwise \<open>str\<close> is erased and characters are
  moved to it up to the delimiter (extracted, not stored) or the end of the input
  (eofbit); failbit is set when no character at all was extracted.
\<close>

definition getline :: "istream \<Rightarrow> string \<Rightarrow> char \<Rightarrow> istream \<times> string" where
  "getline f str delim =
     (if \<not> good f then (f\<lparr>failbit := True\<rparr>, str)
      else (case dropWhile (\<lambda>c. c \<noteq> delim) (buffer f) of
              [] \<Rightarrow> (\<lparr>buffer = [], eofbit = True, failbit = (buffer f = [])\<rparr>, buffer f)
            | _ # r \<Rightarrow> (\<lparr>buffer = r, eofbit = False, failbit = False\<rparr>,
                       takeWhile (\<lambda>c. c \<noteq> delim) (buffer f))))"

section \<open>Token class\<close>

text \<open>
  The constructor's loop \<open>while (std::getline(iss, token, sep)) tokens.push_back(token)\<close>:
  the condition is \<open>!iss.fail()\<close> after the call.
\<close>

function Tokens_loop :: "istream \<Rightarrow> string \<Rightarrow> char \<Rightarrow> string list \<Rightarrow> string list" where
  "Tokens_loop iss token sep tokens =
     (if \<not> failbit (fst (getline iss token sep))
      then Tokens_loop (fst (getline iss token sep)) (snd (getline iss token sep)) sep
             (tokens @ [snd (getline iss token sep)])
      else tokens)"
  by pat_completeness auto
termination
proof (relation "measure (\<lambda>(iss, token, sep, tokens). length (buffer iss) + (if good iss then 1 else 0))")
  show "wf (measure (\<lambda>(iss, token, sep, tokens). length (buffer iss) + (if good iss then 1 else 0)))"
    by simp
next
  fix iss :: istream and token :: string and sep :: char and tokens :: "string list"
  assume ok: "\<not> failbit (fst (getline iss token sep))"
  show "((fst (getline iss token sep), snd (getline iss token sep), sep,
          tokens @ [snd (getline iss token sep)]), (iss, token, sep, tokens))
        \<in> measure (\<lambda>(iss, token, sep, tokens). length (buffer iss) + (if good iss then 1 else 0))"
  proof (cases "good iss")
    case False
    with ok show ?thesis by (simp add: getline_def)
  next
    case True
    have "length (dropWhile (\<lambda>c. c \<noteq> sep) (buffer iss)) \<le> length (buffer iss)"
      by (rule length_dropWhile_le)
    with True show ?thesis
      by (auto simp: getline_def good_def split: list.splits)
  qed
qed

definition Tokens :: "string \<Rightarrow> char \<Rightarrow> string list" where
  "Tokens str sep = Tokens_loop (open_stream str) [] sep []"

text \<open>
  \<open>pop\<close> returns the front token and the remaining tokens. Its assertion holds at every
  call of the source: each caller has checked \<open>size()\<close> first.
\<close>

definition pop :: "string list \<Rightarrow> string \<times> string list" where
  "pop tokens = (hd tokens, tl tokens)"

section \<open>Utility functions\<close>

definition parse_value_fmt :: "string \<Rightarrow> error + ValueFormat" where
  "parse_value_fmt value_fmt_string =
     (if value_fmt_string = ''real'' then Inr REAL
      else if value_fmt_string = ''integer'' then Inr INTEGER
      else if value_fmt_string = ''pattern'' then Inr PATTERN
      else Inl (FormatError ''Bad Header: unknown value format''))"

definition parse_symmetry :: "string \<Rightarrow> error + SymmetryType" where
  "parse_symmetry symmetry_string =
     (if symmetry_string = ''general'' then Inr GENERAL
      else if symmetry_string = ''symmetric'' then Inr SYMMETRIC
      else Inl (FormatError ''Bad Header: unknown symmetry''))"

text \<open>
  \<open>parse_int\<close> is \<open>iss >> int_val\<close> on a fresh stream over the token. The extraction
  operator belongs to the C++ standard library; for an unsigned type, decimal base and
  the classic locale (C++11, as the Makefile builds with g++) it skips leading white
  space, reads an optional sign and the longest run of decimal digits, and stores
  \<^item> 0 when there is no digit,
  \<^item> the largest value of the type when the digits exceed it,
  \<^item> the number otherwise, negated modulo \<open>2 ^ LENGTH('a)\<close> after a minus sign.
  None of these cases is reported to the caller: \<open>parse_int\<close> never looks at the stream
  state. A token with nothing after the white space leaves \<open>int_val\<close> unwritten, so the
  C++ result is indeterminate; the model returns 0 there, the value the specification
  reports for tokens that do not parse.
\<close>

definition isspace :: "char \<Rightarrow> bool" where
  "isspace c \<longleftrightarrow> c \<in> set [CHR '' '', CHR 0x09, CHR 0x0A, CHR 0x0B, CHR 0x0C, CHR 0x0D]"

definition isdigit :: "char \<Rightarrow> bool" where
  "isdigit c \<longleftrightarrow> c \<in> set ''0123456789''"

definition digit_val :: "char \<Rightarrow> nat" where
  "digit_val c = of_char c - of_char CHR ''0''"

definition decimal :: "string \<Rightarrow> nat" where
  "decimal ds = foldl (\<lambda>n c. 10 * n + digit_val c) 0 ds"

definition parse_int :: "string \<Rightarrow> 'a::len word" where
  "parse_int int_string =
     (let s = dropWhile isspace int_string;
          negative = (s \<noteq> [] \<and> hd s = CHR ''-'');
          signed = (s \<noteq> [] \<and> (hd s = CHR ''-'' \<or> hd s = CHR ''+''));
          ds = takeWhile isdigit (if signed then tl s else s)
      in if ds = [] then 0
         else if 2 ^ LENGTH('a) \<le> decimal ds then - 1
         else if negative then - word_of_nat (decimal ds)
         else word_of_nat (decimal ds))"

section \<open>Header parser\<close>

text \<open>\<open>line[0]\<close> of a \<open>std::string\<close>: the terminating null character when the string is empty.\<close>

definition front_char :: "string \<Rightarrow> char" where
  "front_char line = (case line of [] \<Rightarrow> CHR 0x00 | c # _ \<Rightarrow> c)"

text \<open>
  The loop \<open>do { std::getline(f, line); } while (line[0] == '%')\<close>. It need not end: once
  the stream is no longer good, \<open>getline\<close> leaves \<open>line\<close> as it was, so a file whose last
  line starts with \<open>%\<close> and has no newline after it keeps the loop running. \<open>None\<close> is
  this case.
\<close>

partial_function (option) skip_comments :: "istream \<Rightarrow> string \<Rightarrow> (istream \<times> string) option" where
  "skip_comments f line =
     (if front_char (snd (getline f line CHR 0x0A)) = CHR ''%''
      then skip_comments (fst (getline f line CHR 0x0A)) (snd (getline f line CHR 0x0A))
      else Some (getline f line CHR 0x0A))"

definition read_header :: "istream \<Rightarrow> (error + 'a::len word Header \<times> istream) option" where
  "read_header f0 =
     (let (f, line) = getline f0 [] CHR 0x0A;
          format_tokens = Tokens line CHR '' ''
      in if length format_tokens \<noteq> 5
         then Some (Inl (FormatError ''Bad Header: ill-shaped format line''))
      else let (t0, format_tokens) = pop format_tokens in
         if t0 \<noteq> ''%%MatrixMarket''
         then Some (Inl (FormatError ''Bad Header: missing %%%%MatrixMarket''))
      else let (t1, format_tokens) = pop format_tokens in
         if t1 \<noteq> ''matrix''
         then Some (Inl (FormatError ''Bad Header: only matrix supported''))
      else let (t2, format_tokens) = pop format_tokens in
         if t2 \<noteq> ''coordinate''
         then Some (Inl (FormatError ''Bad Header: only coordinate supported''))
      else let (t3, format_tokens) = pop format_tokens in
         (case parse_value_fmt t3 of
            Inl e \<Rightarrow> Some (Inl e)
          | Inr value_fmt \<Rightarrow>
         let (t4, format_tokens) = pop format_tokens in
         (case parse_symmetry t4 of
            Inl e \<Rightarrow> Some (Inl e)
          | Inr symmetry_ \<Rightarrow>
         (case skip_comments f line of
            None \<Rightarrow> None
          | Some (f, line) \<Rightarrow>
         let mtx_size_tokens = Tokens line CHR '' ''
         in if length mtx_size_tokens \<noteq> 3
            then Some (Inl (FormatError ''Bad Header: missing matrix size''))
         else let (s0, mtx_size_tokens) = pop mtx_size_tokens;
                  n_rows = parse_int s0;
                  (s1, mtx_size_tokens) = pop mtx_size_tokens;
                  n_cols = parse_int s1;
                  (s2, mtx_size_tokens) = pop mtx_size_tokens;
                  n_nonzeros = parse_int s2
              in Some (Inr (\<lparr>symmetry = symmetry_, value_type = value_fmt,
                             Header.num_rows = n_rows, Header.num_cols = n_cols,
                             Header.num_nonzeros = n_nonzeros\<rparr>, f))))))"

lemma unat_succ: "(i :: 'a::len word) < n \<Longrightarrow> unat (i + 1) = Suc (unat i)"
proof -
  assume "i < n"
  then have "unat i < unat n"
    by (simp add: word_less_nat_alt)
  moreover have "unat n < 2 ^ LENGTH('a)"
    by (rule unsigned_less)
  ultimately have "unat i + 1 < 2 ^ LENGTH('a)"
    by arith
  then show ?thesis
    by (simp add: unat_word_ariths)
qed

section \<open>Coordinate reader\<close>

text \<open>
  The body of the reading loop after \<open>std::getline(infile, line)\<close>: the entries it pushes
  to \<open>nonzeros\<close>, or the exception it throws. \<open>parse_num\<close> is \<open>iss >> num_val\<close> for the
  caller's \<open>ValueType\<close>, an extraction of the standard library (floating point for the
  demo programs); it is a parameter of the model. The literal \<open>1\<close> of a pattern entry is
  the \<open>1\<close> of the value type.
\<close>

definition read_entry ::
  "(string \<Rightarrow> 'v::one) \<Rightarrow> 'a::len word Header \<Rightarrow> string \<Rightarrow> error + ('a word, 'v) Nonzero list" where
  "read_entry parse_num header line =
     (let tokens = Tokens line CHR '' ''
      in if value_type header = PATTERN \<and> length tokens \<noteq> 2
         then Inl (FormatError ''Bad Matrix: ill-shaped pattern line'')
      else if value_type header \<noteq> PATTERN \<and> length tokens \<noteq> 3
         then Inl (FormatError ''Bad Matrix: ill-shaped value line'')
      else let (t0, tokens) = pop tokens;
               row1 = parse_int t0;
               (t1, tokens) = pop tokens;
               col1 = parse_int t1;
               val = (if value_type header = PATTERN then 1 else parse_num (fst (pop tokens)))
           in if row1 < 1 \<or> row1 > Header.num_rows header
              then Inl (FormatError ''Bad Matrix: row out of bounds'')
           else if col1 < 1 \<or> col1 > Header.num_cols header
              then Inl (FormatError ''Bad Matrix: col out of bounds'')
           else let row0 = row1 - 1;
                    col0 = col1 - 1
                in Inr (\<lparr>row = row0, col = col0, value = val\<rparr> #
                        (if symmetry header = SYMMETRIC \<and> row0 \<noteq> col0
                         then [\<lparr>row = col0, col = row0, value = val\<rparr>] else [])))"

text \<open>
  The loop \<open>for (CoordType i = 0; i < header.num_nonzeros; i++)\<close>, the same text in
  \<open>read_csr\<close> and in \<open>read_csc\<close>. Each round declares a fresh empty \<open>line\<close>.
\<close>

function read_nonzeros ::
  "(string \<Rightarrow> 'v::one) \<Rightarrow> 'a::len word Header \<Rightarrow> 'a word \<Rightarrow> istream \<Rightarrow> ('a word, 'v) Nonzero list
     \<Rightarrow> error + ('a word, 'v) Nonzero list \<times> istream" where
  "read_nonzeros parse_num header i infile nonzeros =
     (if i < Header.num_nonzeros header
      then (case read_entry parse_num header (snd (getline infile [] CHR 0x0A)) of
              Inl e \<Rightarrow> Inl e
            | Inr pushed \<Rightarrow>
                read_nonzeros parse_num header (i + 1) (fst (getline infile [] CHR 0x0A))
                  (nonzeros @ pushed))
      else Inr (nonzeros, infile))"
  by pat_completeness auto
termination
  by (relation "measure (\<lambda>(parse_num, header, i, infile, nonzeros).
                   unat (Header.num_nonzeros header) - unat i)")
     (auto simp: unat_succ word_less_nat_alt)

section \<open>Sorting\<close>

text \<open>
  The two comparison lambdas: \<open>std::tie(a.row, a.col) < std::tie(b.row, b.col)\<close> in
  \<open>read_csr\<close>, \<open>std::tie(a.col, a.row) < std::tie(b.col, b.row)\<close> in \<open>read_csc\<close>, with the
  lexicographic order of \<open>std::tuple\<close>.
\<close>

definition csr_less :: "('a::len word, 'v) Nonzero \<Rightarrow> ('a word, 'v) Nonzero \<Rightarrow> bool" where
  "csr_less a b \<longleftrightarrow> row a < row b \<or> (\<not> row b < row a \<and> col a < col b)"

definition csc_less :: "('a::len word, 'v) Nonzero \<Rightarrow> ('a word, 'v) Nonzero \<Rightarrow> bool" where
  "csc_less a b \<longleftrightarrow> col a < col b \<or> (\<not> col b < col a \<and> row a < row b)"

text \<open>
  \<open>std::sort\<close> is the standard library's and a parameter of the model. What the standard
  promises of it: for a comparison that is a strict weak ordering, the result is a
  permutation of the input in which no element is less than an earlier one. The order of
  equivalent elements is not promised.
\<close>

definition strict_weak_ordering :: "('e \<Rightarrow> 'e \<Rightarrow> bool) \<Rightarrow> bool" where
  "strict_weak_ordering lt \<longleftrightarrow>
     (\<forall>a. \<not> lt a a) \<and>
     (\<forall>a b c. lt a b \<and> lt b c \<longrightarrow> lt a c) \<and>
     (\<forall>a b c. \<not> lt a b \<and> \<not> lt b a \<and> \<not> lt b c \<and> \<not> lt c b
                \<longrightarrow> \<not> lt a c \<and> \<not> lt c a)"

definition std_sort_contract :: "(('e \<Rightarrow> 'e \<Rightarrow> bool) \<Rightarrow> 'e list \<Rightarrow> 'e list) \<Rightarrow> bool" where
  "std_sort_contract std_sort \<longleftrightarrow>
     (\<forall>lt xs. strict_weak_ordering lt \<longrightarrow>
        mset (std_sort lt xs) = mset xs \<and>
        sorted_wrt (\<lambda>a b. \<not> lt b a) (std_sort lt xs))"

text \<open>
  Two sorts that meet the contract. \<open>insertion_sort\<close> keeps equivalent elements in their
  input order; \<open>reversing_sort\<close> puts them in the opposite order.
\<close>

fun insert_after :: "('e \<Rightarrow> 'e \<Rightarrow> bool) \<Rightarrow> 'e \<Rightarrow> 'e list \<Rightarrow> 'e list" where
  "insert_after lt x [] = [x]"
| "insert_after lt x (y # ys) =
     (if lt x y then x # y # ys else y # insert_after lt x ys)"

definition insertion_sort :: "('e \<Rightarrow> 'e \<Rightarrow> bool) \<Rightarrow> 'e list \<Rightarrow> 'e list" where
  "insertion_sort lt xs = foldl (\<lambda>acc x. insert_after lt x acc) [] xs"


section \<open>Compressor\<close>

text \<open>
  The loops \<open>while (current < target) { offsets.push_back(static_cast<CoordType>(n));
  ++current; }\<close>, where \<open>n\<close> is the size of the index vector: inside the walk over the
  entries and after it, in \<open>read_csr\<close> and in \<open>read_csc\<close>. The cast of the \<open>size_t\<close> keeps
  the low \<open>LENGTH('a)\<close> bits.
\<close>

function offsets_while :: "'a::len word list \<Rightarrow> nat \<Rightarrow> 'a word \<Rightarrow> 'a word \<Rightarrow> 'a word list \<times> 'a word" where
  "offsets_while offsets n current target =
     (if current < target
      then offsets_while (offsets @ [word_of_nat n]) n (current + 1) target
      else (offsets, current))"
  by pat_completeness auto
termination
  by (relation "measure (\<lambda>(offsets, n, current, target). unat target - unat current)")
     (auto simp: unat_succ word_less_nat_alt)

text \<open>
  The walk \<open>for (const auto& nz : nonzeros)\<close> of \<open>read_csr\<close> over the state
  \<open>(row_offsets, col_indices, values, current_row)\<close>, and that of \<open>read_csc\<close> over
  \<open>(col_offsets, row_indices, values, current_col)\<close>.
\<close>

fun csr_walk ::
  "'a::len word list \<times> 'a word list \<times> 'v list \<times> 'a word \<Rightarrow> ('a word, 'v) Nonzero list
     \<Rightarrow> 'a word list \<times> 'a word list \<times> 'v list \<times> 'a word" where
  "csr_walk st [] = st"
| "csr_walk (offsets, indices, vals, current_row) (nz # nzs) =
     csr_walk (fst (offsets_while offsets (length indices) current_row (row nz)),
               indices @ [col nz], vals @ [value nz],
               snd (offsets_while offsets (length indices) current_row (row nz))) nzs"

fun csc_walk ::
  "'a::len word list \<times> 'a word list \<times> 'v list \<times> 'a word \<Rightarrow> ('a word, 'v) Nonzero list
     \<Rightarrow> 'a word list \<times> 'a word list \<times> 'v list \<times> 'a word" where
  "csc_walk st [] = st"
| "csc_walk (offsets, indices, vals, current_col) (nz # nzs) =
     csc_walk (fst (offsets_while offsets (length indices) current_col (col nz)),
               indices @ [row nz], vals @ [value nz],
               snd (offsets_while offsets (length indices) current_col (col nz))) nzs"

text \<open>The conversion of the sorted entries, from \<open>row_offsets.push_back(0)\<close> to the return.\<close>

definition compress_csr :: "'a::len word Header \<Rightarrow> ('a word, 'v) Nonzero list \<Rightarrow> ('a word, 'v) CSRMatrix" where
  "compress_csr header nonzeros =
     (case csr_walk ([0], [], [], 0) nonzeros of
        (offsets, indices, vals, current_row) \<Rightarrow>
          \<lparr>CSRMatrix.num_rows = Header.num_rows header,
           CSRMatrix.num_cols = Header.num_cols header,
           CSRMatrix.num_nonzeros = word_of_nat (length vals),
           row_offsets = fst (offsets_while offsets (length indices) current_row (Header.num_rows header)),
           col_indices = indices,
           CSRMatrix.values = vals\<rparr>)"

definition compress_csc :: "'a::len word Header \<Rightarrow> ('a word, 'v) Nonzero list \<Rightarrow> ('a word, 'v) CSCMatrix" where
  "compress_csc header nonzeros =
     (case csc_walk ([0], [], [], 0) nonzeros of
        (offsets, indices, vals, current_col) \<Rightarrow>
          \<lparr>CSCMatrix.num_rows = Header.num_rows header,
           CSCMatrix.num_cols = Header.num_cols header,
           CSCMatrix.num_nonzeros = word_of_nat (length vals),
           col_offsets = fst (offsets_while offsets (length indices) current_col (Header.num_cols header)),
           row_indices = indices,
           CSCMatrix.values = vals\<rparr>)"

section \<open>The two entry points\<close>

text \<open>
  The argument \<open>file\<close> is what the file system holds under \<open>filename\<close>: \<open>None\<close> when the
  file cannot be opened, its characters otherwise. The result is \<open>None\<close> when the call
  does not return.
\<close>

definition read_csr ::
  "(string \<Rightarrow> 'v::one)
     \<Rightarrow> ((('a::len word, 'v) Nonzero \<Rightarrow> ('a word, 'v) Nonzero \<Rightarrow> bool)
          \<Rightarrow> ('a word, 'v) Nonzero list \<Rightarrow> ('a word, 'v) Nonzero list)
     \<Rightarrow> string option \<Rightarrow> (error + ('a word, 'v) CSRMatrix) option" where
  "read_csr parse_num std_sort file =
     (case file of
        None \<Rightarrow> Some (Inl (IOError ''Could not open file for reading''))
      | Some contents \<Rightarrow>
     (case read_header (open_stream contents) of
        None \<Rightarrow> None
      | Some (Inl e) \<Rightarrow> Some (Inl e)
      | Some (Inr (header, infile)) \<Rightarrow>
     (case read_nonzeros parse_num header 0 infile [] of
        Inl e \<Rightarrow> Some (Inl e)
      | Inr (nonzeros, infile') \<Rightarrow>
          Some (Inr (compress_csr header (std_sort csr_less nonzeros))))))"

definition read_csc ::
  "(string \<Rightarrow> 'v::one)
     \<Rightarrow> ((('a::len word, 'v) Nonzero \<Rightarrow> ('a word, 'v) Nonzero \<Rightarrow> bool)
          \<Rightarrow> ('a word, 'v) Nonzero list \<Rightarrow> ('a word, 'v) Nonzero list)
     \<Rightarrow> string option \<Rightarrow> (error + ('a word, 'v) CSCMatrix) option" where
  "read_csc parse_num std_sort file =
     (case file of
        None \<Rightarrow> Some (Inl (IOError ''Could not open file for reading''))
      | Some contents \<Rightarrow>
     (case read_header (open_stream contents) of
        None \<Rightarrow> None
      | Some (Inl e) \<Rightarrow> Some (Inl e)
      | Some (Inr (header, infile)) \<Rightarrow>
     (case read_nonzeros parse_num header 0 infile [] of
        Inl e \<Rightarrow> Some (Inl e)
      | Inr (nonzeros, infile') \<Rightarrow>
          Some (Inr (compress_csc header (std_sort csc_less nonzeros))))))"

section \<open>Facts about sorting\<close>

lemma swo_neg_trans:
  "strict_weak_ordering lt \<Longrightarrow> \<not> lt a b \<Longrightarrow> \<not> lt b c \<Longrightarrow> \<not> lt a c"
  unfolding strict_weak_ordering_def by metis

lemma swo_asym: "strict_weak_ordering lt \<Longrightarrow> lt a b \<Longrightarrow> \<not> lt b a"
  unfolding strict_weak_ordering_def by metis

lemma swo_csr_less: "strict_weak_ordering (csr_less :: ('a::len word, 'v) Nonzero \<Rightarrow> _)"
  unfolding strict_weak_ordering_def csr_less_def by auto

lemma swo_csc_less: "strict_weak_ordering (csc_less :: ('a::len word, 'v) Nonzero \<Rightarrow> _)"
  unfolding strict_weak_ordering_def csc_less_def by auto

lemma mset_insert_after: "mset (insert_after lt x ys) = add_mset x (mset ys)"
  by (induction ys) auto

lemma set_insert_after: "set (insert_after lt x ys) = insert x (set ys)"
  by (induction ys) auto

lemma sorted_insert_after:
  assumes "strict_weak_ordering lt" "sorted_wrt (\<lambda>a b. \<not> lt b a) ys"
  shows "sorted_wrt (\<lambda>a b. \<not> lt b a) (insert_after lt x ys)"
  using assms(2)
proof (induction ys)
  case Nil
  then show ?case by simp
next
  case (Cons y ys)
  show ?case
  proof (cases "lt x y")
    case True
    have "\<not> lt z x" if "z \<in> set ys" for z
    proof -
      from Cons.prems that have "\<not> lt z y" by simp
      moreover from True have "\<not> lt y x" by (rule swo_asym [OF assms(1)])
      ultimately show ?thesis by (rule swo_neg_trans [OF assms(1)])
    qed
    with True Cons.prems show ?thesis
      by (auto dest: swo_asym [OF assms(1)])
  next
    case False
    with Cons show ?thesis
      by (auto simp: set_insert_after)
  qed
qed

lemma mset_foldl_insert: "mset (foldl (\<lambda>acc x. insert_after lt x acc) acc xs) = mset acc + mset xs"
  by (induction xs arbitrary: acc) (auto simp: mset_insert_after)

lemma sorted_foldl_insert:
  "strict_weak_ordering lt \<Longrightarrow> sorted_wrt (\<lambda>a b. \<not> lt b a) acc \<Longrightarrow>
   sorted_wrt (\<lambda>a b. \<not> lt b a) (foldl (\<lambda>acc x. insert_after lt x acc) acc xs)"
  by (induction xs arbitrary: acc) (auto simp: sorted_insert_after)

lemma insertion_sort_contract: "std_sort_contract insertion_sort"
  unfolding std_sort_contract_def insertion_sort_def
  by (simp add: mset_foldl_insert sorted_foldl_insert)


lemma sorted_perm_unique:
  assumes "sorted_wrt lt xs" "mset ys = mset xs" "sorted_wrt (\<lambda>a b. \<not> lt b a) ys"
  shows "ys = xs"
  using assms
proof (induction xs arbitrary: ys)
  case Nil
  then show ?case by simp
next
  case (Cons x xs)
  then obtain y ys' where ys: "ys = y # ys'"
    by (cases ys) auto
  have "y = x"
  proof (rule ccontr)
    assume ne: "y \<noteq> x"
    have "y \<in># mset (x # xs)" using Cons.prems(2) ys by (metis list.set_intros(1) set_mset_mset)
    with ne have "y \<in> set xs" by auto
    with Cons.prems(1) have "lt x y" by simp
    have "x \<in># mset ys" using Cons.prems(2) by simp
    with ne ys have "x \<in> set ys'" by auto
    with Cons.prems(3) ys have "\<not> lt x y" by simp
    with \<open>lt x y\<close> show False by simp
  qed
  with Cons.prems ys have "mset ys' = mset xs" "sorted_wrt (\<lambda>a b. \<not> lt b a) ys'" "sorted_wrt lt xs"
    by auto
  with Cons.IH have "ys' = xs" by blast
  with \<open>y = x\<close> ys show ?case by simp
qed

lemma std_sort_sorted_input:
  "std_sort_contract srt \<Longrightarrow> strict_weak_ordering lt \<Longrightarrow> sorted_wrt lt xs \<Longrightarrow> srt lt xs = xs"
  unfolding std_sort_contract_def by (blast intro: sorted_perm_unique)

section \<open>Facts about the compressor\<close>

declare offsets_while.simps [simp del]

lemma offsets_while_eq:
  "offsets_while offsets n current target =
     (offsets @ replicate (unat target - unat current) (word_of_nat n),
      if current < target then target else current)"
proof (induction offsets n current target rule: offsets_while.induct)
  case (1 offsets n current target)
  show ?case
  proof (cases "current < target")
    case False
    then have "unat target - unat current = 0"
      by (simp add: word_less_nat_alt)
    with False show ?thesis
      by (subst offsets_while.simps) simp
  next
    case True
    then have suc: "unat (current + 1) = Suc (unat current)"
      by (rule unat_succ)
    from True have lt: "unat current < unat target"
      by (simp add: word_less_nat_alt)
    have nxt: "(if current + 1 < target then target else current + 1) = target"
      using True by (metis inc_le order_le_less)
    have "unat target - unat current = Suc (unat target - unat (current + 1))"
      using suc lt by simp
    then have "replicate (unat target - unat current) (word_of_nat n :: 'a word) =
               word_of_nat n # replicate (unat target - unat (current + 1)) (word_of_nat n)"
      by simp
    with True 1 [OF True] nxt show ?thesis
      by (subst offsets_while.simps) simp
  qed
qed

text \<open>The number of entries of a list whose row, or column, is below a bound.\<close>

definition rows_below :: "('a::len word, 'v) Nonzero list \<Rightarrow> nat \<Rightarrow> nat" where
  "rows_below es m = length (filter (\<lambda>e. unat (row e) < m) es)"

definition cols_below :: "('a::len word, 'v) Nonzero list \<Rightarrow> nat \<Rightarrow> nat" where
  "cols_below es m = length (filter (\<lambda>e. unat (col e) < m) es)"

lemma rows_below_all: "\<forall>e\<in>set es. unat (row e) < m \<Longrightarrow> rows_below es m = length es"
  by (simp add: rows_below_def)

lemma rows_below_none: "\<forall>e\<in>set es. m \<le> unat (row e) \<Longrightarrow> rows_below es m = 0"
  by (auto simp: rows_below_def filter_empty_conv)

lemma rows_below_append: "rows_below (ps @ qs) m = rows_below ps m + rows_below qs m"
  by (simp add: rows_below_def)

lemma csr_walk_sorted:
  assumes "sorted (map (\<lambda>e. unat (row e)) nzs)"
    and "\<forall>e\<in>set nzs. unat current \<le> unat (row e)"
    and "\<forall>e\<in>set ps. unat (row e) \<le> unat current"
    and "offsets = map (\<lambda>m. word_of_nat (rows_below ps m)) [0..<Suc (unat current)]"
  shows "csr_walk (offsets, map col ps, map value ps, current) nzs =
           (map (\<lambda>m. word_of_nat (rows_below (ps @ nzs) m))
              [0..<Suc (unat (if nzs = [] then current else row (last nzs)))],
            map col (ps @ nzs), map value (ps @ nzs),
            if nzs = [] then current else row (last nzs))"
  using assms
proof (induction nzs arbitrary: ps offsets current)
  case Nil
  then show ?case by simp
next
  case (Cons nz nzs)
  let ?r = "row nz"
  from Cons.prems(2) have le: "unat current \<le> unat ?r" by simp
  have cur': "(if current < ?r then ?r else current) = ?r"
    using le by (auto simp: word_less_nat_alt word_unat_eq_iff)
  have step: "offsets_while offsets (length (map col ps)) current ?r =
          (map (\<lambda>m. word_of_nat (rows_below (ps @ [nz]) m)) [0..<Suc (unat ?r)], ?r)"
  proof -
    have a: "map (\<lambda>m. word_of_nat (rows_below (ps @ [nz]) m) :: 'a word) [0..<Suc (unat current)] = offsets"
      unfolding Cons.prems(4)
      by (rule map_cong) (use le in \<open>auto simp: rows_below_append rows_below_def\<close>)
    have b: "map (\<lambda>m. word_of_nat (rows_below (ps @ [nz]) m) :: 'a word) [Suc (unat current)..<Suc (unat ?r)]
             = replicate (unat ?r - unat current) (word_of_nat (length ps))"
    proof -
      have "rows_below (ps @ [nz]) m = length ps"
        if "m \<in> set [Suc (unat current)..<Suc (unat ?r)]" for m
      proof -
        from that have m: "unat current < m" "m \<le> unat ?r" by auto
        with Cons.prems(3) have "rows_below ps m = length ps"
          by (intro rows_below_all) auto
        moreover from m have "rows_below [nz] m = 0"
          by (simp add: rows_below_def)
        ultimately show ?thesis by (simp add: rows_below_append)
      qed
      then have "map (\<lambda>m. word_of_nat (rows_below (ps @ [nz]) m) :: 'a word) [Suc (unat current)..<Suc (unat ?r)]
             = map (\<lambda>m. word_of_nat (length ps)) [Suc (unat current)..<Suc (unat ?r)]"
        by (intro map_cong) auto
      then show ?thesis by (simp only: map_replicate_const length_upt diff_Suc_Suc)
    qed
    have "[0..<Suc (unat ?r)] = [0..<Suc (unat current)] @ [Suc (unat current)..<Suc (unat ?r)]"
      using le by (metis Suc_le_mono le0 upt_add_eq_append le_add_diff_inverse)
    then have "map (\<lambda>m. word_of_nat (rows_below (ps @ [nz]) m) :: 'a word) [0..<Suc (unat ?r)] =
          offsets @ replicate (unat ?r - unat current) (word_of_nat (length ps))"
      using a b by (metis map_append)
    then show ?thesis
      by (simp add: offsets_while_eq cur')
  qed
  have srt: "sorted (map (\<lambda>e. unat (row e)) nzs)"
    and ge: "\<forall>e\<in>set nzs. unat ?r \<le> unat (row e)"
    using Cons.prems(1) by auto
  have prev: "\<forall>e\<in>set (ps @ [nz]). unat (row e) \<le> unat ?r"
    using Cons.prems(3) le by auto
  have "csr_walk (offsets, map col ps, map value ps, current) (nz # nzs) =
        csr_walk (map (\<lambda>m. word_of_nat (rows_below (ps @ [nz]) m)) [0..<Suc (unat ?r)],
                  map col (ps @ [nz]), map value (ps @ [nz]), ?r) nzs"
    using step by simp
  also have "\<dots> = (map (\<lambda>m. word_of_nat (rows_below ((ps @ [nz]) @ nzs) m))
              [0..<Suc (unat (if nzs = [] then ?r else row (last nzs)))],
            map col ((ps @ [nz]) @ nzs), map value ((ps @ [nz]) @ nzs),
            if nzs = [] then ?r else row (last nzs))"
    by (rule Cons.IH [OF srt ge prev refl])
  finally show ?case by simp
qed


lemma sorted_le_last:
  "sorted (map f es) \<Longrightarrow> e \<in> set es \<Longrightarrow> f e \<le> f (last es)"
  by (induction es) (auto split: if_splits)

lemma csr_walk_start:
  fixes es :: "('a::len word, 'v) Nonzero list"
  assumes srt: "sorted (map (\<lambda>e. unat (row e)) es)"
    and lt: "\<forall>e\<in>set es. unat (row e) < unat target"
  shows "(case csr_walk ([0], [], [], 0) es of
            (offsets, indices, vals, current) \<Rightarrow>
              (fst (offsets_while offsets (length indices) current target), indices, vals)) =
         (map (\<lambda>m. word_of_nat (rows_below es m)) [0..<Suc (unat target)], map col es, map value es)"
proof -
  let ?c = "if es = [] then 0 else row (last es)"
  let ?nil = "[] :: ('a word, 'v) Nonzero list"
  have walk: "csr_walk ([0], map col ?nil, map value ?nil, 0) es =
          (map (\<lambda>m. word_of_nat (rows_below (?nil @ es) m)) [0..<Suc (unat ?c)],
           map col (?nil @ es), map value (?nil @ es), ?c)"
    by (rule csr_walk_sorted [OF srt]) (simp_all add: rows_below_def)
  have le: "unat ?c \<le> unat target"
    using lt by (cases "es = []") (auto simp: less_imp_le)
  have tail: "map (\<lambda>m. word_of_nat (rows_below es m) :: 'a word) [Suc (unat ?c)..<Suc (unat target)]
          = replicate (unat target - unat ?c) (word_of_nat (length es))"
  proof -
    have "rows_below es m = length es" if "m \<in> set [Suc (unat ?c)..<Suc (unat target)]" for m
    proof (cases "es = []")
      case True
      then show ?thesis by (simp add: rows_below_def)
    next
      case False
      have "unat (row e) < m" if "e \<in> set es" for e
      proof -
        have "unat (row e) \<le> unat (row (last es))"
          using sorted_le_last [OF srt that] .
        with False \<open>m \<in> set [Suc (unat ?c)..<Suc (unat target)]\<close> show ?thesis
          by (simp del: upt_Suc)
      qed
      then show ?thesis by (simp add: rows_below_all)
    qed
    then have "map (\<lambda>m. word_of_nat (rows_below es m) :: 'a word) [Suc (unat ?c)..<Suc (unat target)]
             = map (\<lambda>m. word_of_nat (length es)) [Suc (unat ?c)..<Suc (unat target)]"
      by (intro map_cong) auto
    then show ?thesis by (simp only: map_replicate_const length_upt diff_Suc_Suc)
  qed
  have "[0..<Suc (unat target)] = [0..<Suc (unat ?c)] @ [Suc (unat ?c)..<Suc (unat target)]"
    using le by (metis Suc_le_mono le0 upt_add_eq_append le_add_diff_inverse)
  then have "map (\<lambda>m. word_of_nat (rows_below es m) :: 'a word) [0..<Suc (unat target)] =
        map (\<lambda>m. word_of_nat (rows_below es m)) [0..<Suc (unat ?c)]
          @ replicate (unat target - unat ?c) (word_of_nat (length es))"
    using tail by (metis map_append)
  with walk show ?thesis
    by (simp add: offsets_while_eq)
qed

lemma compress_csr_eq:
  assumes "sorted (map (\<lambda>e. unat (row e)) es)"
    and "\<forall>e\<in>set es. unat (row e) < unat (Header.num_rows header)"
  shows "compress_csr header es =
           \<lparr>CSRMatrix.num_rows = Header.num_rows header,
            CSRMatrix.num_cols = Header.num_cols header,
            CSRMatrix.num_nonzeros = word_of_nat (length es),
            row_offsets = map (\<lambda>m. word_of_nat (rows_below es m)) [0..<Suc (unat (Header.num_rows header))],
            col_indices = map col es,
            CSRMatrix.values = map value es\<rparr>"
  using csr_walk_start [OF assms]
  by (auto simp: compress_csr_def split: prod.splits)

text \<open>The column walk is the row walk over the transposed entries.\<close>

definition transposed :: "('a, 'v) Nonzero \<Rightarrow> ('a, 'v) Nonzero" where
  "transposed e = \<lparr>row = col e, col = row e, value = value e\<rparr>"

lemma csc_walk_transposed: "csc_walk st es = csr_walk st (map transposed es)"
proof (induction es arbitrary: st)
  case Nil
  then show ?case by simp
next
  case (Cons e es)
  obtain offsets indices vals current where st: "st = (offsets, indices, vals, current)"
    by (cases st) auto
  show ?case
    unfolding st by (simp add: Cons.IH transposed_def)
qed

lemma rows_below_transposed: "rows_below (map transposed es) m = cols_below es m"
  by (simp add: rows_below_def cols_below_def transposed_def length_filter_map comp_def)

lemma compress_csc_eq:
  assumes "sorted (map (\<lambda>e. unat (col e)) es)"
    and "\<forall>e\<in>set es. unat (col e) < unat (Header.num_cols header)"
  shows "compress_csc header es =
           \<lparr>CSCMatrix.num_rows = Header.num_rows header,
            CSCMatrix.num_cols = Header.num_cols header,
            CSCMatrix.num_nonzeros = word_of_nat (length es),
            col_offsets = map (\<lambda>m. word_of_nat (cols_below es m)) [0..<Suc (unat (Header.num_cols header))],
            row_indices = map row es,
            CSCMatrix.values = map value es\<rparr>"
proof -
  have srt: "sorted (map (\<lambda>e. unat (row e)) (map transposed es))"
    using assms(1) by (simp add: comp_def transposed_def)
  have lt: "\<forall>e\<in>set (map transposed es). unat (row e) < unat (Header.num_cols header)"
    using assms(2) by (simp add: transposed_def)
  show ?thesis
    using csr_walk_start [OF srt lt]
    by (auto simp: compress_csc_def csc_walk_transposed rows_below_transposed comp_def transposed_def
             split: prod.splits)
qed

section \<open>Files as lines\<close>

text \<open>
  To state what a file contains: \<open>unlines ls\<close> is the text of the lines \<open>ls\<close>, each followed
  by a newline; \<open>read_entries\<close> applies the body of the reading loop to data lines in
  order, up to the first exception.
\<close>

definition unlines :: "string list \<Rightarrow> string" where
  "unlines ls = concat (map (\<lambda>l. l @ [CHR 0x0A]) ls)"

fun read_entries ::
  "(string \<Rightarrow> 'v::one) \<Rightarrow> 'a::len word Header \<Rightarrow> string list \<Rightarrow> error + ('a word, 'v) Nonzero list" where
  "read_entries parse_num header [] = Inr []"
| "read_entries parse_num header (l # ls) =
     (case read_entry parse_num header l of
        Inl e \<Rightarrow> Inl e
      | Inr pushed \<Rightarrow>
          (case read_entries parse_num header ls of
             Inl e \<Rightarrow> Inl e
           | Inr rest \<Rightarrow> Inr (pushed @ rest)))"

declare read_nonzeros.simps [simp del]
declare Tokens_loop.simps [simp del]

lemma unlines_Cons: "unlines (l # ls) = l @ CHR 0x0A # unlines ls"
  by (simp add: unlines_def)

lemma unlines_append: "unlines (ks @ ls) = unlines ks @ unlines ls"
  by (simp add: unlines_def)

lemma getline_line:
  assumes "CHR 0x0A \<notin> set l"
  shows "getline (open_stream (l @ CHR 0x0A # r)) s CHR 0x0A = (open_stream r, l)"
proof -
  have "dropWhile (\<lambda>c. c \<noteq> CHR 0x0A) (l @ CHR 0x0A # r) = CHR 0x0A # r"
    using assms by (induction l) auto
  moreover have "takeWhile (\<lambda>c. c \<noteq> CHR 0x0A) (l @ CHR 0x0A # r) = l"
    using assms by (induction l) auto
  ultimately show ?thesis
    by (simp add: getline_def open_stream_def good_def)
qed

lemma getline_unlines:
  "CHR 0x0A \<notin> set l \<Longrightarrow>
   getline (open_stream (unlines (l # ls) @ t)) s CHR 0x0A = (open_stream (unlines ls @ t), l)"
  by (simp add: unlines_Cons getline_line)

lemma getline_eof:
  assumes "CHR 0x0A \<notin> set l"
  shows "getline (open_stream l) s CHR 0x0A = (\<lparr>buffer = [], eofbit = True, failbit = (l = [])\<rparr>, l)"
proof -
  have d: "dropWhile (\<lambda>c. c \<noteq> CHR 0x0A) l = []"
    using assms by (induction l) auto
  show ?thesis
    by (simp add: getline_def open_stream_def good_def d)
qed

lemma first_line:
  "snd (getline (open_stream contents) s CHR 0x0A) = takeWhile (\<lambda>c. c \<noteq> CHR 0x0A) contents"
proof (cases "dropWhile (\<lambda>c. c \<noteq> CHR 0x0A) contents")
  case Nil
  then have t: "takeWhile (\<lambda>c. c \<noteq> CHR 0x0A) contents = contents"
    by (metis append_Nil2 takeWhile_dropWhile_id)
  show ?thesis
    by (simp add: getline_def open_stream_def good_def Nil t)
next
  case (Cons c r)
  show ?thesis
    by (simp add: getline_def open_stream_def good_def Cons)
qed

lemma skip_comments_unlines:
  assumes "\<forall>c\<in>set comments. CHR 0x0A \<notin> set c \<and> front_char c = CHR ''%''"
    and "CHR 0x0A \<notin> set dim" and "front_char dim \<noteq> CHR ''%''"
  shows "skip_comments (open_stream (unlines (comments @ [dim]) @ t)) line = Some (open_stream t, dim)"
  using assms(1)
proof (induction comments arbitrary: line)
  case Nil
  have "getline (open_stream (unlines [dim] @ t)) line CHR 0x0A = (open_stream (unlines [] @ t), dim)"
    using assms(2) by (rule getline_unlines)
  with assms(3) show ?case
    by (subst skip_comments.simps) (simp add: unlines_def)
next
  case (Cons c comments)
  then have c: "CHR 0x0A \<notin> set c" "front_char c = CHR ''%''"
    by auto
  have "getline (open_stream (unlines (c # comments @ [dim]) @ t)) line CHR 0x0A =
        (open_stream (unlines (comments @ [dim]) @ t), c)"
    using c(1) by (rule getline_unlines)
  with c(2) Cons show ?case
    by (subst skip_comments.simps) simp
qed


lemma read_nonzeros_done:
  "\<not> i < Header.num_nonzeros header \<Longrightarrow> read_nonzeros pn header i f acc = Inr (acc, f)"
  by (subst read_nonzeros.simps) simp

lemma read_nonzeros_unlines:
  assumes "\<forall>l\<in>set ls. CHR 0x0A \<notin> set l"
    and "unat i + length ls \<le> unat (Header.num_nonzeros header)"
  shows "read_nonzeros pn header i (open_stream (unlines ls @ t)) acc =
           (case read_entries pn header ls of
              Inl e \<Rightarrow> Inl e
            | Inr es \<Rightarrow> read_nonzeros pn header (i + word_of_nat (length ls)) (open_stream t) (acc @ es))"
  using assms
proof (induction ls arbitrary: i acc)
  case Nil
  then show ?case by (simp add: unlines_def)
next
  case (Cons l ls)
  from Cons.prems(2) have lt: "i < Header.num_nonzeros header"
    by (simp add: word_less_nat_alt)
  then have suc: "unat (i + 1) = Suc (unat i)"
    by (rule unat_succ)
  from Cons.prems(1) have nl: "CHR 0x0A \<notin> set l" and nls: "\<forall>l\<in>set ls. CHR 0x0A \<notin> set l"
    by auto
  have g: "getline (open_stream (unlines (l # ls) @ t)) [] CHR 0x0A = (open_stream (unlines ls @ t), l)"
    using nl by (rule getline_unlines)
  have le: "unat (i + 1) + length ls \<le> unat (Header.num_nonzeros header)"
    using suc Cons.prems(2) by simp
  show ?case
  proof (cases "read_entry pn header l")
    case (Inl e)
    with lt g show ?thesis
      by (subst read_nonzeros.simps) simp
  next
    case (Inr pushed)
    have "read_nonzeros pn header i (open_stream (unlines (l # ls) @ t)) acc =
          read_nonzeros pn header (i + 1) (open_stream (unlines ls @ t)) (acc @ pushed)"
      using lt g Inr by (subst read_nonzeros.simps) simp
    also have "\<dots> = (case read_entries pn header ls of
              Inl e \<Rightarrow> Inl e
            | Inr es \<Rightarrow> read_nonzeros pn header (i + 1 + word_of_nat (length ls)) (open_stream t)
                         ((acc @ pushed) @ es))"
      by (rule Cons.IH [OF nls le])
    finally show ?thesis
      using Inr by (simp add: add.assoc split: sum.splits)
  qed
qed

lemma read_nonzeros_all:
  assumes "\<forall>l\<in>set ls. CHR 0x0A \<notin> set l"
    and "length ls = unat (Header.num_nonzeros header)"
  shows "read_nonzeros pn header 0 (open_stream (unlines ls @ t)) [] =
           (case read_entries pn header ls of
              Inl e \<Rightarrow> Inl e
            | Inr es \<Rightarrow> Inr (es, open_stream t))"
proof -
  have "(word_of_nat (length ls) :: 'a word) = Header.num_nonzeros header"
    using assms(2) by simp
  then have "read_nonzeros pn header (0 + word_of_nat (length ls)) (open_stream t) ([] @ es) =
        Inr (es, open_stream t)" for es
    by (simp add: read_nonzeros_done)
  moreover have "read_nonzeros pn header 0 (open_stream (unlines ls @ t)) [] =
           (case read_entries pn header ls of
              Inl e \<Rightarrow> Inl e
            | Inr es \<Rightarrow> read_nonzeros pn header (0 + word_of_nat (length ls)) (open_stream t) ([] @ es))"
    using assms by (intro read_nonzeros_unlines) simp_all
  ultimately show ?thesis
    by (simp split: sum.splits)
qed

section \<open>Facts about the header parser\<close>

text \<open>
  The format line as the specification words it: five tokens, the three literals, a value
  format of the closed set and a symmetry of the closed set.
\<close>

definition format_line_ok :: "string \<Rightarrow> bool" where
  "format_line_ok l \<longleftrightarrow>
     (let ts = Tokens l CHR '' ''
      in length ts = 5 \<and> ts ! 0 = ''%%MatrixMarket'' \<and> ts ! 1 = ''matrix'' \<and> ts ! 2 = ''coordinate'' \<and>
         ts ! 3 \<in> {''real'', ''integer'', ''pattern''} \<and> ts ! 4 \<in> {''general'', ''symmetric''})"

text \<open>The digits \<open>parse_int\<close> reads from a token: none when the token is not a number.\<close>

definition int_digits :: "string \<Rightarrow> string" where
  "int_digits int_string =
     (let s = dropWhile isspace int_string
      in takeWhile isdigit (if s \<noteq> [] \<and> (hd s = CHR ''-'' \<or> hd s = CHR ''+'') then tl s else s))"


lemma list5:
  assumes "length ts = 5"
  obtains t0 t1 t2 t3 t4 where "ts = [t0, t1, t2, t3, t4]"
proof -
  from assms obtain t0 r0 where "ts = t0 # r0" "length r0 = 4" by (cases ts) auto
  moreover then obtain t1 r1 where "r0 = t1 # r1" "length r1 = 3" by (cases r0) auto
  moreover then obtain t2 r2 where "r1 = t2 # r2" "length r2 = 2" by (cases r1) auto
  moreover then obtain t3 r3 where "r2 = t3 # r3" "length r3 = 1" by (cases r2) auto
  moreover then obtain t4 where "r3 = [t4]" by (cases r3) auto
  ultimately show ?thesis using that by simp
qed

lemma list3:
  assumes "length ts = 3"
  obtains t0 t1 t2 where "ts = [t0, t1, t2]"
proof -
  from assms obtain t0 r0 where "ts = t0 # r0" "length r0 = 2" by (cases ts) auto
  moreover then obtain t1 r1 where "r0 = t1 # r1" "length r1 = 1" by (cases r0) auto
  moreover then obtain t2 where "r1 = [t2]" by (cases r1) auto
  ultimately show ?thesis using that by simp
qed

lemma list2:
  assumes "length ts = 2"
  obtains t0 t1 where "ts = [t0, t1]"
proof -
  from assms obtain t0 r0 where "ts = t0 # r0" "length r0 = 1" by (cases ts) auto
  moreover then obtain t1 where "r0 = [t1]" by (cases r0) auto
  ultimately show ?thesis using that by simp
qed

text \<open>The part of \<open>read_header\<close> after the loop over the comment lines.\<close>

definition size_line ::
  "SymmetryType \<Rightarrow> ValueFormat \<Rightarrow> istream \<Rightarrow> string \<Rightarrow> (error + 'a::len word Header \<times> istream) option" where
  "size_line sy vf f line =
     (if length (Tokens line CHR '' '') \<noteq> 3
      then Some (Inl (FormatError ''Bad Header: missing matrix size''))
      else Some (Inr (\<lparr>symmetry = sy, value_type = vf,
                        Header.num_rows = parse_int (Tokens line CHR '' '' ! 0),
                        Header.num_cols = parse_int (Tokens line CHR '' '' ! 1),
                        Header.num_nonzeros = parse_int (Tokens line CHR '' '' ! 2)\<rparr>, f)))"

lemma read_header_bad_format:
  assumes "\<not> format_line_ok (takeWhile (\<lambda>c. c \<noteq> CHR 0x0A) contents)"
  shows "\<exists>msg. read_header (open_stream contents) = Some (Inl (FormatError msg))"
proof -
  let ?ts = "Tokens (snd (getline (open_stream contents) [] CHR 0x0A)) CHR '' ''"
  show ?thesis
  proof (cases "length ?ts = 5")
    case False
    then show ?thesis
      by (simp add: read_header_def split_def Let_def)
  next
    case True
    then obtain t0 t1 t2 t3 t4 where ts: "?ts = [t0, t1, t2, t3, t4]"
      by (rule list5)
    with assms have "t0 \<noteq> ''%%MatrixMarket'' \<or> t1 \<noteq> ''matrix'' \<or> t2 \<noteq> ''coordinate'' \<or>
        t3 \<notin> {''real'', ''integer'', ''pattern''} \<or> t4 \<notin> {''general'', ''symmetric''}"
      by (auto simp: format_line_ok_def first_line Let_def)
    then show ?thesis
      by (auto simp: read_header_def split_def Let_def ts pop_def parse_value_fmt_def parse_symmetry_def)
  qed
qed

lemma read_header_good_format:
  assumes "Tokens (takeWhile (\<lambda>c. c \<noteq> CHR 0x0A) contents) CHR '' '' =
             [''%%MatrixMarket'', ''matrix'', ''coordinate'', t3, t4]"
    and "parse_value_fmt t3 = Inr vf" and "parse_symmetry t4 = Inr sy"
  shows "read_header (open_stream contents) =
           (case skip_comments (fst (getline (open_stream contents) [] CHR 0x0A))
                   (takeWhile (\<lambda>c. c \<noteq> CHR 0x0A) contents) of
              None \<Rightarrow> None
            | Some (f, line) \<Rightarrow> size_line sy vf f line)"
proof -
  have eq: "size_line sy vf f line =
     (let mtx_size_tokens = Tokens line CHR '' ''
         in if length mtx_size_tokens \<noteq> 3
            then Some (Inl (FormatError ''Bad Header: missing matrix size''))
         else let (s0, mtx_size_tokens) = pop mtx_size_tokens;
                  n_rows = parse_int s0;
                  (s1, mtx_size_tokens) = pop mtx_size_tokens;
                  n_cols = parse_int s1;
                  (s2, mtx_size_tokens) = pop mtx_size_tokens;
                  n_nonzeros = parse_int s2
              in Some (Inr (\<lparr>symmetry = sy, value_type = vf,
                             Header.num_rows = n_rows, Header.num_cols = n_cols,
                             Header.num_nonzeros = n_nonzeros\<rparr>, f)))"
    for f line and sy :: SymmetryType and vf :: ValueFormat
  proof (cases "length (Tokens line CHR '' '') = 3")
    case False
    then show ?thesis by (simp add: size_line_def)
  next
    case True
    then obtain s0 s1 s2 where "Tokens line CHR '' '' = [s0, s1, s2]"
      by (rule list3)
    then show ?thesis by (simp add: size_line_def pop_def)
  qed
  show ?thesis
    unfolding read_header_def eq [symmetric]
    using assms
    by (simp add: split_def first_line pop_def split: option.splits)
qed

lemma format_line_ok_tokens:
  assumes "format_line_ok l"
  obtains t3 t4 vf sy where "Tokens l CHR '' '' = [''%%MatrixMarket'', ''matrix'', ''coordinate'', t3, t4]"
    and "parse_value_fmt t3 = Inr vf" and "parse_symmetry t4 = Inr sy"
proof -
  from assms have len: "length (Tokens l CHR '' '') = 5"
    by (simp add: format_line_ok_def Let_def)
  then obtain t0 t1 t2 t3 t4 where ts: "Tokens l CHR '' '' = [t0, t1, t2, t3, t4]"
    by (rule list5)
  with assms have lit: "t0 = ''%%MatrixMarket''" "t1 = ''matrix''" "t2 = ''coordinate''"
    and t3: "t3 \<in> {''real'', ''integer'', ''pattern''}" and t4: "t4 \<in> {''general'', ''symmetric''}"
    by (simp_all add: format_line_ok_def Let_def)
  from t3 obtain vf where "parse_value_fmt t3 = Inr vf"
    by (auto simp: parse_value_fmt_def)
  moreover from t4 obtain sy where "parse_symmetry t4 = Inr sy"
    by (auto simp: parse_symmetry_def)
  ultimately show ?thesis
    using that ts lit by simp
qed

lemma read_entry_eq:
  "read_entry pn header l =
     (let ts = Tokens l CHR '' '';
          r = parse_int (ts ! 0);
          c = parse_int (ts ! 1);
          v = (if value_type header = PATTERN then 1 else pn (ts ! 2))
      in if value_type header = PATTERN \<and> length ts \<noteq> 2
         then Inl (FormatError ''Bad Matrix: ill-shaped pattern line'')
         else if value_type header \<noteq> PATTERN \<and> length ts \<noteq> 3
         then Inl (FormatError ''Bad Matrix: ill-shaped value line'')
         else if r < 1 \<or> r > Header.num_rows header
         then Inl (FormatError ''Bad Matrix: row out of bounds'')
         else if c < 1 \<or> c > Header.num_cols header
         then Inl (FormatError ''Bad Matrix: col out of bounds'')
         else Inr (\<lparr>row = r - 1, col = c - 1, value = v\<rparr> #
                   (if symmetry header = SYMMETRIC \<and> r - 1 \<noteq> c - 1
                    then [\<lparr>row = c - 1, col = r - 1, value = v\<rparr>] else [])))"
proof (cases "value_type header = PATTERN")
  case True
  show ?thesis
  proof (cases "length (Tokens l CHR '' '') = 2")
    case False
    with True show ?thesis by (simp add: read_entry_def Let_def)
  next
    case len: True
    then obtain t0 t1 where "Tokens l CHR '' '' = [t0, t1]"
      by (rule list2)
    with True show ?thesis
      by (simp add: read_entry_def Let_def pop_def)
  qed
next
  case False
  show ?thesis
  proof (cases "length (Tokens l CHR '' '') = 3")
    case len: False
    with False show ?thesis by (simp add: read_entry_def Let_def)
  next
    case len: True
    then obtain t0 t1 t2 where "Tokens l CHR '' '' = [t0, t1, t2]"
      by (rule list3)
    with False show ?thesis
      by (simp add: read_entry_def Let_def pop_def)
  qed
qed

lemmas eval_simps =
  unlines_def read_header_def open_stream_def getline_def good_def Tokens_def Tokens_loop.simps pop_def
  parse_value_fmt_def parse_symmetry_def parse_int_def isspace_def isdigit_def decimal_def digit_val_def
  front_char_def skip_comments.simps read_entry_def read_nonzeros.simps format_line_ok_def int_digits_def

section \<open>The header parser (claims C7 and C8)\<close>

text \<open>
  C7. When the first line of the file does not lex on space into the five tokens
  \<open>%%MatrixMarket matrix coordinate <real|integer|pattern> <general|symmetric>\<close>, the
  header parser fails with a \<open>FormatError\<close>, and so do both entry points. When it does,
  the only \<open>FormatError\<close> left to the header parser is that of the dimension line.
\<close>

theorem C7_format_line:
  "(\<not> format_line_ok (takeWhile (\<lambda>c. c \<noteq> CHR 0x0A) contents) \<longrightarrow>
      (\<exists>msg. (read_header (open_stream contents) :: (error + 'a::len word Header \<times> istream) option)
                = Some (Inl (FormatError msg))) \<and>
      (\<exists>msg. (read_csr pn srt (Some contents) :: (error + ('a word, 'v::one) CSRMatrix) option)
                = Some (Inl (FormatError msg))) \<and>
      (\<exists>msg. read_csc pn srt (Some contents) = Some (Inl (FormatError msg)))) \<and>
   (format_line_ok (takeWhile (\<lambda>c. c \<noteq> CHR 0x0A) contents) \<longrightarrow>
      (\<forall>msg. (read_header (open_stream contents) :: (error + 'a word Header \<times> istream) option)
                = Some (Inl (FormatError msg)) \<longrightarrow> msg = ''Bad Header: missing matrix size''))"
proof (intro conjI impI allI)
  assume bad: "\<not> format_line_ok (takeWhile (\<lambda>c. c \<noteq> CHR 0x0A) contents)"
  then obtain msg
    where h: "(read_header (open_stream contents) :: (error + 'a word Header \<times> istream) option)
                = Some (Inl (FormatError msg))"
    using read_header_bad_format by blast
  then show "\<exists>msg. (read_header (open_stream contents) :: (error + 'a word Header \<times> istream) option)
                = Some (Inl (FormatError msg))"
    by blast
  from h show "\<exists>msg. (read_csr pn srt (Some contents) :: (error + ('a word, 'v) CSRMatrix) option)
                = Some (Inl (FormatError msg))"
    by (simp add: read_csr_def)
  from h show "\<exists>msg. read_csc pn srt (Some contents) = Some (Inl (FormatError msg))"
    by (simp add: read_csc_def)
next
  fix msg
  assume ok: "format_line_ok (takeWhile (\<lambda>c. c \<noteq> CHR 0x0A) contents)"
    and err: "(read_header (open_stream contents) :: (error + 'a word Header \<times> istream) option)
                = Some (Inl (FormatError msg))"
  from ok obtain t3 t4 vf sy
    where "Tokens (takeWhile (\<lambda>c. c \<noteq> CHR 0x0A) contents) CHR '' '' =
             [''%%MatrixMarket'', ''matrix'', ''coordinate'', t3, t4]"
      and "parse_value_fmt t3 = Inr vf" and "parse_symmetry t4 = Inr sy"
    by (rule format_line_ok_tokens)
  then have "(read_header (open_stream contents) :: (error + 'a word Header \<times> istream) option) =
           (case skip_comments (fst (getline (open_stream contents) [] CHR 0x0A))
                   (takeWhile (\<lambda>c. c \<noteq> CHR 0x0A) contents) of
              None \<Rightarrow> None
            | Some (f, line) \<Rightarrow> size_line sy vf f line)"
    by (rule read_header_good_format)
  with err show "msg = ''Bad Header: missing matrix size''"
    by (auto simp: size_line_def split: option.splits if_splits)
qed

theorem C7_format_line_witness:
  "\<not> format_line_ok (takeWhile (\<lambda>c. c \<noteq> CHR 0x0A)
        (unlines [''%%MatrixMarket matrix array real general'', ''2 2'', ''1.0''])) \<and>
   (\<exists>msg. (read_csr (parse_int :: string \<Rightarrow> 32 word) insertion_sort
              (Some (unlines [''%%MatrixMarket matrix array real general'', ''2 2'', ''1.0'']))
            :: (error + (32 word, 32 word) CSRMatrix) option) = Some (Inl (FormatError msg))) \<and>
   format_line_ok (takeWhile (\<lambda>c. c \<noteq> CHR 0x0A)
        (unlines [''%%MatrixMarket matrix coordinate real general'', ''2 2''])) \<and>
   (read_header (open_stream (unlines [''%%MatrixMarket matrix coordinate real general'', ''2 2'']))
      :: (error + 32 word Header \<times> istream) option)
     = Some (Inl (FormatError ''Bad Header: missing matrix size''))"
proof -
  let ?bad = "unlines [''%%MatrixMarket matrix array real general'', ''2 2'', ''1.0'']"
  let ?good = "unlines [''%%MatrixMarket matrix coordinate real general'', ''2 2'']"
  have b: "\<not> format_line_ok (takeWhile (\<lambda>c. c \<noteq> CHR 0x0A) ?bad)"
    by (simp add: eval_simps)
  have g: "format_line_ok (takeWhile (\<lambda>c. c \<noteq> CHR 0x0A) ?good)"
    by (simp add: eval_simps)
  have r: "(read_header (open_stream ?good) :: (error + 32 word Header \<times> istream) option)
     = Some (Inl (FormatError ''Bad Header: missing matrix size''))"
    by (simp add: eval_simps)
  from b g r
    C7_format_line [where contents = ?bad and pn = "parse_int :: string \<Rightarrow> 32 word"
      and srt = "insertion_sort :: _ \<Rightarrow> (32 word, 32 word) Nonzero list \<Rightarrow> _"]
  show ?thesis
    by blast
qed

lemma read_header_layout:
  assumes fmt: "format_line_ok fmt" and nl: "CHR 0x0A \<notin> set fmt"
  shows "\<exists>vf sy. parse_value_fmt (Tokens fmt CHR '' '' ! 3) = Inr vf \<and>
           parse_symmetry (Tokens fmt CHR '' '' ! 4) = Inr sy \<and>
           (\<forall>ls r. (read_header (open_stream (unlines (fmt # ls) @ r))
                      :: (error + 'a::len word Header \<times> istream) option) =
              (case skip_comments (open_stream (unlines ls @ r)) fmt of
                 None \<Rightarrow> None
               | Some (f, line) \<Rightarrow> size_line sy vf f line))"
proof -
  from fmt obtain t3 t4 vf sy
    where ts: "Tokens fmt CHR '' '' = [''%%MatrixMarket'', ''matrix'', ''coordinate'', t3, t4]"
      and vf: "parse_value_fmt t3 = Inr vf" and sy: "parse_symmetry t4 = Inr sy"
    by (rule format_line_ok_tokens)
  have "(read_header (open_stream (unlines (fmt # ls) @ r)) :: (error + 'a word Header \<times> istream) option) =
           (case skip_comments (open_stream (unlines ls @ r)) fmt of
              None \<Rightarrow> None
            | Some (f, line) \<Rightarrow> size_line sy vf f line)" for ls r
  proof -
    have g: "getline (open_stream (unlines (fmt # ls) @ r)) [] CHR 0x0A = (open_stream (unlines ls @ r), fmt)"
      using nl by (rule getline_unlines)
    then have "takeWhile (\<lambda>c. c \<noteq> CHR 0x0A) (unlines (fmt # ls) @ r) = fmt"
      by (metis first_line snd_conv)
    with ts vf sy g read_header_good_format [of "unlines (fmt # ls) @ r" t3 t4 vf sy]
    show ?thesis by simp
  qed
  with ts vf sy show ?thesis by simp
qed

text \<open>
  Where the loop over the comment lines does not end: the stream is no longer good and
  \<open>line\<close> still starts with \<open>%\<close>. A file that is a well-formed format line and nothing
  else, not even a newline, is such an input.
\<close>

lemma skip_comments_returns:
  assumes "skip_comments f line = Some y"
  shows "good f \<or> front_char line \<noteq> CHR ''%''"
proof (rule skip_comments.raw_induct
    [where P = "\<lambda>f line y. good f \<or> front_char line \<noteq> CHR ''%''", OF _ assms])
  fix skip :: "istream \<Rightarrow> string \<Rightarrow> (istream \<times> string) option"
    and f :: istream and line :: string and y :: "istream \<times> string"
  assume IH: "\<And>f line y. skip f line = Some y \<Longrightarrow> good f \<or> front_char line \<noteq> CHR ''%''"
    and body: "(if front_char (snd (getline f line CHR 0x0A)) = CHR ''%''
                then skip (fst (getline f line CHR 0x0A)) (snd (getline f line CHR 0x0A))
                else Some (getline f line CHR 0x0A)) = Some y"
  show "good f \<or> front_char line \<noteq> CHR ''%''"
  proof (rule ccontr)
    assume "\<not> (good f \<or> front_char line \<noteq> CHR ''%'')"
    then have ng: "\<not> good f" and pc: "front_char line = CHR ''%''"
      by auto
    from ng have g: "getline f line CHR 0x0A = (f\<lparr>failbit := True\<rparr>, line)"
      by (simp add: getline_def)
    with pc body have "skip (f\<lparr>failbit := True\<rparr>) line = Some y"
      by simp
    then have "good (f\<lparr>failbit := True\<rparr>) \<or> front_char line \<noteq> CHR ''%''"
      by (rule IH)
    with pc show False
      by (simp add: good_def)
  qed
qed

lemma Tokens_loop_acc:
  "\<forall>acc. Tokens_loop iss token sep acc = acc @ Tokens_loop iss token sep []"
proof (rule Tokens_loop.induct
    [where P = "\<lambda>iss token sep tokens. \<forall>acc. Tokens_loop iss token sep acc = acc @ Tokens_loop iss token sep []"])
  fix iss token sep and tokens :: "string list"
  assume IH: "\<not> failbit (fst (getline iss token sep)) \<Longrightarrow>
     \<forall>acc. Tokens_loop (fst (getline iss token sep)) (snd (getline iss token sep)) sep acc =
           acc @ Tokens_loop (fst (getline iss token sep)) (snd (getline iss token sep)) sep []"
  show "\<forall>acc. Tokens_loop iss token sep acc = acc @ Tokens_loop iss token sep []"
  proof (cases "failbit (fst (getline iss token sep))")
    case True
    then show ?thesis
      by (subst (1 2) Tokens_loop.simps) simp
  next
    case False
    show ?thesis
    proof
      fix acc
      let ?f = "fst (getline iss token sep)" and ?t = "snd (getline iss token sep)"
      have "Tokens_loop iss token sep acc = Tokens_loop ?f ?t sep (acc @ [?t])"
        using False by (subst Tokens_loop.simps) simp
      also have "\<dots> = (acc @ [?t]) @ Tokens_loop ?f ?t sep []"
        using IH [OF False] by blast
      also have "\<dots> = acc @ Tokens_loop ?f ?t sep ([] @ [?t])"
        using IH [OF False] by (metis append.assoc append_Nil)
      also have "Tokens_loop ?f ?t sep ([] @ [?t]) = Tokens_loop iss token sep []"
        using False by (subst (2) Tokens_loop.simps) simp
      finally show "Tokens_loop iss token sep acc = acc @ Tokens_loop iss token sep []" .
    qed
  qed
qed

lemma Tokens_first:
  assumes "Tokens s sep = t # ts"
  shows "t = takeWhile (\<lambda>c. c \<noteq> sep) s"
proof -
  let ?f = "fst (getline (open_stream s) [] sep)" and ?t = "snd (getline (open_stream s) [] sep)"
  have ok: "\<not> failbit ?f"
    using assms by (subst (asm) Tokens_def, subst (asm) Tokens_loop.simps) (auto split: if_splits)
  then have "Tokens s sep = Tokens_loop ?f ?t sep ([] @ [?t])"
    by (subst Tokens_def, subst Tokens_loop.simps) simp
  also have "\<dots> = [?t] @ Tokens_loop ?f ?t sep []"
    using Tokens_loop_acc by (metis append_Nil)
  finally have "t = ?t"
    using assms by simp
  moreover have "?t = takeWhile (\<lambda>c. c \<noteq> sep) s"
  proof (cases "dropWhile (\<lambda>c. c \<noteq> sep) s")
    case Nil
    then have t: "takeWhile (\<lambda>c. c \<noteq> sep) s = s"
      by (metis append_Nil2 takeWhile_dropWhile_id)
    show ?thesis
      by (simp add: getline_def open_stream_def good_def Nil t)
  next
    case (Cons c r)
    show ?thesis
      by (simp add: getline_def open_stream_def good_def Cons)
  qed
  ultimately show ?thesis by simp
qed

lemma read_header_no_return:
  assumes "format_line_ok fmt" and "CHR 0x0A \<notin> set fmt"
  shows "read_header (open_stream fmt) = None"
proof -
  from assms(1) obtain t3 t4 vf sy
    where ts: "Tokens fmt CHR '' '' = [''%%MatrixMarket'', ''matrix'', ''coordinate'', t3, t4]"
      and vf: "parse_value_fmt t3 = Inr vf" and sy: "parse_symmetry t4 = Inr sy"
    by (rule format_line_ok_tokens)
  have g: "getline (open_stream fmt) [] CHR 0x0A = (\<lparr>buffer = [], eofbit = True, failbit = (fmt = [])\<rparr>, fmt)"
    using assms(2) by (rule getline_eof)
  then have tw: "takeWhile (\<lambda>c. c \<noteq> CHR 0x0A) fmt = fmt"
    by (metis first_line snd_conv)
  from ts have "''%%MatrixMarket'' = takeWhile (\<lambda>c. c \<noteq> CHR '' '') fmt"
    by (rule Tokens_first)
  then have pc: "front_char fmt = CHR ''%''"
    by (cases fmt) (auto simp: front_char_def split: if_splits)
  have "skip_comments \<lparr>buffer = [], eofbit = True, failbit = (fmt = [])\<rparr> fmt = None"
  proof (cases "skip_comments \<lparr>buffer = [], eofbit = True, failbit = (fmt = [])\<rparr> fmt")
    case (Some y)
    then have "good \<lparr>buffer = [], eofbit = True, failbit = (fmt = [])\<rparr> \<or> front_char fmt \<noteq> CHR ''%''"
      by (rule skip_comments_returns)
    with pc show ?thesis by (simp add: good_def)
  qed simp
  with read_header_good_format [of fmt t3 t4 vf sy] ts vf sy g tw show ?thesis
    by simp
qed




section \<open>The general scenario (claim C3)\<close>

text \<open>The first scenario of the specification, with and without a newline after its last line.\<close>

definition scenario_general :: string where
  "scenario_general =
     unlines [''%%MatrixMarket matrix coordinate real general'', ''3 3 2'', ''1 1 5.0'', ''2 3 7.0'']"

definition scenario_general_no_newline :: string where
  "scenario_general_no_newline =
     unlines [''%%MatrixMarket matrix coordinate real general'', ''3 3 2'', ''1 1 5.0''] @ ''2 3 7.0''"

lemma scenario_general_header:
  "read_header (open_stream scenario_general) =
     Some (Inr (\<lparr>symmetry = GENERAL, value_type = REAL, Header.num_rows = 3 :: 32 word,
                  Header.num_cols = 3, Header.num_nonzeros = 2\<rparr>,
                open_stream (unlines [''1 1 5.0'', ''2 3 7.0''])))"
  "read_header (open_stream scenario_general_no_newline) =
     Some (Inr (\<lparr>symmetry = GENERAL, value_type = REAL, Header.num_rows = 3 :: 32 word,
                  Header.num_cols = 3, Header.num_nonzeros = 2\<rparr>,
                open_stream (unlines [''1 1 5.0''] @ ''2 3 7.0'')))"
  by (simp_all add: scenario_general_def scenario_general_no_newline_def eval_simps)

lemma scenario_general_nonzeros:
  fixes pn :: "string \<Rightarrow> 'v::one"
  shows "read_nonzeros pn \<lparr>symmetry = GENERAL, value_type = REAL, Header.num_rows = 3 :: 32 word,
                         Header.num_cols = 3, Header.num_nonzeros = 2\<rparr> 0
            (open_stream (unlines [''1 1 5.0'', ''2 3 7.0''])) [] =
          Inr ([\<lparr>row = 0, col = 0, value = pn ''5.0''\<rparr>, \<lparr>row = 1, col = 2, value = pn ''7.0''\<rparr>],
               open_stream [])"
    and "read_nonzeros pn \<lparr>symmetry = GENERAL, value_type = REAL, Header.num_rows = 3 :: 32 word,
                         Header.num_cols = 3, Header.num_nonzeros = 2\<rparr> 0
            (open_stream (unlines [''1 1 5.0''] @ ''2 3 7.0'')) [] =
          Inr ([\<lparr>row = 0, col = 0, value = pn ''5.0''\<rparr>, \<lparr>row = 1, col = 2, value = pn ''7.0''\<rparr>],
               \<lparr>buffer = [], eofbit = True, failbit = False\<rparr>)"
  by (simp_all add: eval_simps)

text \<open>
  C3, as the code has it. Decoded as CSR with any sort that meets the contract of
  \<open>std::sort\<close>, the scenario yields \<open>num_rows = 3\<close>, \<open>num_cols = 3\<close>, \<open>num_nonzeros = 2\<close>,
  \<open>col_indices = [0, 2]\<close>, the two parsed values, and \<open>row_offsets = [0, 1, 2, 2]\<close>: row
  0 holds the first entry, row 1 the second, row 2 none. The values are what the value
  extraction returns for the tokens \<open>5.0\<close> and \<open>7.0\<close>.
\<close>

theorem C3_scenario_general:
  fixes pn :: "string \<Rightarrow> 'v::one"
  assumes "std_sort_contract srt"
  shows "read_csr pn srt (Some scenario_general) =
           Some (Inr \<lparr>CSRMatrix.num_rows = 3 :: 32 word, CSRMatrix.num_cols = 3,
                       CSRMatrix.num_nonzeros = 2, row_offsets = [0, 1, 2, 2],
                       col_indices = [0, 2], CSRMatrix.values = [pn ''5.0'', pn ''7.0'']\<rparr>) \<and>
         read_csr pn srt (Some scenario_general_no_newline) =
           Some (Inr \<lparr>CSRMatrix.num_rows = 3 :: 32 word, CSRMatrix.num_cols = 3,
                       CSRMatrix.num_nonzeros = 2, row_offsets = [0, 1, 2, 2],
                       col_indices = [0, 2], CSRMatrix.values = [pn ''5.0'', pn ''7.0'']\<rparr>)"
proof -
  let ?h = "\<lparr>symmetry = GENERAL, value_type = REAL, Header.num_rows = 3 :: 32 word,
             Header.num_cols = 3, Header.num_nonzeros = 2\<rparr>"
  let ?es = "[\<lparr>row = 0 :: 32 word, col = 0, value = pn ''5.0''\<rparr>, \<lparr>row = 1, col = 2, value = pn ''7.0''\<rparr>]"
  have srt: "srt csr_less ?es = ?es"
    by (rule std_sort_sorted_input [OF assms swo_csr_less]) (simp add: csr_less_def)
  have cmp: "compress_csr ?h ?es =
           \<lparr>CSRMatrix.num_rows = 3 :: 32 word, CSRMatrix.num_cols = 3,
                       CSRMatrix.num_nonzeros = 2, row_offsets = [0, 1, 2, 2],
                       col_indices = [0, 2], CSRMatrix.values = [pn ''5.0'', pn ''7.0'']\<rparr>"
    by (simp add: compress_csr_def offsets_while.simps)
  show ?thesis
    by (simp add: read_csr_def scenario_general_header scenario_general_nonzeros srt cmp)
qed

theorem C3_scenario_general_witness:
  "read_csr (parse_int :: string \<Rightarrow> 32 word) insertion_sort (Some scenario_general) =
           Some (Inr \<lparr>CSRMatrix.num_rows = 3 :: 32 word, CSRMatrix.num_cols = 3,
                       CSRMatrix.num_nonzeros = 2, row_offsets = [0, 1, 2, 2],
                       col_indices = [0, 2], CSRMatrix.values = [5, 7]\<rparr>)"
proof -
  have "(parse_int ''5.0'' :: 32 word) = 5" "(parse_int ''7.0'' :: 32 word) = 7"
    by (simp_all add: eval_simps)
  with C3_scenario_general [OF insertion_sort_contract, of "parse_int :: string \<Rightarrow> 32 word"]
  show ?thesis by simp
qed

text \<open>
  The claim as the specification words it has \<open>row_offsets = [0, 1, 1, 2]\<close>, which would
  leave row 1 empty and put the entry of the line \<open>2 3 7.0\<close> in row 2.
\<close>

theorem C3_counterexample:
  "read_csr (parse_int :: string \<Rightarrow> 32 word) insertion_sort (Some scenario_general) \<noteq>
           Some (Inr \<lparr>CSRMatrix.num_rows = 3 :: 32 word, CSRMatrix.num_cols = 3,
                       CSRMatrix.num_nonzeros = 2, row_offsets = [0, 1, 1, 2],
                       col_indices = [0, 2], CSRMatrix.values = [5, 7]\<rparr>)"
  by (simp add: scenario_general_def eval_simps read_csr_def compress_csr_def insertion_sort_def
        csr_less_def offsets_while.simps)

section \<open>The decode in two phases\<close>

text \<open>
  The text \<open>read_csr\<close> and \<open>read_csc\<close> share, from the opening of the file to the end of
  the reading loop: the header and the accumulated entries, or the exception.
\<close>

definition read_coo ::
  "(string \<Rightarrow> 'v::one) \<Rightarrow> string \<Rightarrow> (error + 'a::len word Header \<times> ('a word, 'v) Nonzero list) option" where
  "read_coo parse_num contents =
     (case read_header (open_stream contents) of
        None \<Rightarrow> None
      | Some (Inl e) \<Rightarrow> Some (Inl e)
      | Some (Inr (header, infile)) \<Rightarrow>
     (case read_nonzeros parse_num header 0 infile [] of
        Inl e \<Rightarrow> Some (Inl e)
      | Inr (nonzeros, infile') \<Rightarrow> Some (Inr (header, nonzeros))))"

lemma read_csr_coo:
  "read_csr pn srt (Some contents) =
     (case read_coo pn contents of
        None \<Rightarrow> None
      | Some (Inl e) \<Rightarrow> Some (Inl e)
      | Some (Inr (header, nonzeros)) \<Rightarrow> Some (Inr (compress_csr header (srt csr_less nonzeros))))"
  by (simp add: read_csr_def read_coo_def split: option.splits sum.splits prod.splits)

lemma read_csc_coo:
  "read_csc pn srt (Some contents) =
     (case read_coo pn contents of
        None \<Rightarrow> None
      | Some (Inl e) \<Rightarrow> Some (Inl e)
      | Some (Inr (header, nonzeros)) \<Rightarrow> Some (Inr (compress_csc header (srt csc_less nonzeros))))"
  by (simp add: read_csc_def read_coo_def split: option.splits sum.splits prod.splits)

lemma read_nonzeros_invariant:
  assumes "read_nonzeros pn header i f acc = Inr (nz, f')"
    and "\<forall>e\<in>set acc. P e"
    and "\<And>l pushed. read_entry pn header l = Inr pushed \<Longrightarrow> \<forall>e\<in>set pushed. P e"
  shows "\<forall>e\<in>set nz. P e"
  using assms
proof (induction pn header i f acc rule: read_nonzeros.induct)
  case (1 pn header i f acc)
  show ?case
  proof (cases "i < Header.num_nonzeros header")
    case False
    with 1(2) have "nz = acc"
      by (simp add: read_nonzeros_done)
    with 1(3) show ?thesis by simp
  next
    case True
    show ?thesis
    proof (cases "read_entry pn header (snd (getline f [] CHR 0x0A))")
      case (Inl e)
      with True 1(2) show ?thesis
        by (subst (asm) read_nonzeros.simps) simp
    next
      case (Inr pushed)
      with True 1(2) have "read_nonzeros pn header (i + 1) (fst (getline f [] CHR 0x0A)) (acc @ pushed) = Inr (nz, f')"
        by (subst (asm) read_nonzeros.simps) simp
      moreover have "\<forall>e\<in>set (acc @ pushed). P e"
        using 1(3) 1(4) [OF Inr] by auto
      ultimately show ?thesis
        using 1(1) [OF True Inr] 1(4) by blast
    qed
  qed
qed

lemma read_coo_invariant:
  assumes "read_coo pn contents = Some (Inr (header, nonzeros))"
    and "\<And>l pushed. read_entry pn header l = Inr pushed \<Longrightarrow> \<forall>e\<in>set pushed. P e"
  shows "\<forall>e\<in>set nonzeros. P e"
proof -
  from assms(1) obtain f f' where "read_nonzeros pn header 0 f [] = Inr (nonzeros, f')"
    by (auto simp: read_coo_def split: option.splits sum.splits prod.splits)
  then show ?thesis
    by (rule read_nonzeros_invariant) (simp_all add: assms(2))
qed

lemma word_pred_less:
  fixes r :: "'a::len word"
  assumes "r \<noteq> 0" and "\<not> n < r" and "n \<le> m"
  shows "unat (r - 1) < unat m"
proof -
  from assms(1) have "unat (r - 1) = unat r - 1" and "0 < unat r"
    by (simp_all add: unat_minus_one unat_gt_0)
  moreover from assms(2) have "r \<le> n"
    by simp
  then have "unat r \<le> unat n"
    by (simp add: word_le_nat_alt)
  moreover from assms(3) have "unat n \<le> unat m"
    by (simp add: word_le_nat_alt)
  ultimately show ?thesis by simp
qed

lemma read_entry_row_bound:
  assumes "read_entry pn header l = Inr pushed"
    and "symmetry header = GENERAL \<or> Header.num_cols header \<le> Header.num_rows header"
  shows "\<forall>e\<in>set pushed. unat (row e) < unat (Header.num_rows header)"
proof -
  note a = word_pred_less [OF _ _ order_refl]
    and b = word_pred_less [where n = "Header.num_cols header" and m = "Header.num_rows header"]
  from assms show ?thesis
    by (auto simp: read_entry_eq Let_def a b split: if_splits)
qed

lemma read_entry_col_bound:
  assumes "read_entry pn header l = Inr pushed"
    and "symmetry header = GENERAL \<or> Header.num_rows header \<le> Header.num_cols header"
  shows "\<forall>e\<in>set pushed. unat (col e) < unat (Header.num_cols header)"
proof -
  note a = word_pred_less [OF _ _ order_refl]
    and b = word_pred_less [where n = "Header.num_rows header" and m = "Header.num_cols header"]
  from assms show ?thesis
    by (auto simp: read_entry_eq Let_def a b split: if_splits)
qed

section \<open>The structural invariant (claim C1)\<close>

lemma csr_walk_arrays:
  "csr_walk (offsets, indices, vals, current) es = (offsets', indices', vals', current') \<Longrightarrow>
   indices' = indices @ map col es \<and> vals' = vals @ map value es"
proof (induction es arbitrary: offsets indices vals current)
  case Nil
  then show ?case by simp
next
  case (Cons e es)
  from Cons.prems have "csr_walk
         (fst (offsets_while offsets (length indices) current (row e)),
          indices @ [col e], vals @ [value e],
          snd (offsets_while offsets (length indices) current (row e))) es =
        (offsets', indices', vals', current')"
    by simp
  then have "indices' = (indices @ [col e]) @ map col es \<and> vals' = (vals @ [value e]) @ map value es"
    by (rule Cons.IH)
  then show ?case by simp
qed

lemma compress_csr_fields:
  "CSRMatrix.num_rows (compress_csr header es) = Header.num_rows header"
  "CSRMatrix.num_cols (compress_csr header es) = Header.num_cols header"
  "CSRMatrix.num_nonzeros (compress_csr header es) = word_of_nat (length es)"
  "col_indices (compress_csr header es) = map col es"
  "CSRMatrix.values (compress_csr header es) = map value es"
  by (auto simp: compress_csr_def split: prod.splits dest: csr_walk_arrays)

lemma compress_csc_fields:
  "CSCMatrix.num_rows (compress_csc header es) = Header.num_rows header"
  "CSCMatrix.num_cols (compress_csc header es) = Header.num_cols header"
  "CSCMatrix.num_nonzeros (compress_csc header es) = word_of_nat (length es)"
  "row_indices (compress_csc header es) = map row es"
  "CSCMatrix.values (compress_csc header es) = map value es"
  by (auto simp: compress_csc_def csc_walk_transposed transposed_def comp_def
           split: prod.splits dest: csr_walk_arrays)

text \<open>The positions \<open>[lo, hi)\<close> of a list.\<close>

definition positions :: "nat \<Rightarrow> nat \<Rightarrow> 'x list \<Rightarrow> 'x list" where
  "positions lo hi xs = drop lo (take hi xs)"

lemma positions_map: "positions lo hi (map f xs) = map f (positions lo hi xs)"
  by (simp add: positions_def take_map drop_map)

lemma sorted_take_below:
  assumes "sorted (map k es)"
  shows "take (length (filter (\<lambda>e. k e < r) es)) es = filter (\<lambda>e. k e < r) es \<and>
         drop (length (filter (\<lambda>e. k e < r) es)) es = filter (\<lambda>e. \<not> k e < r) es"
  using assms
proof (induction es)
  case Nil
  then show ?case by simp
next
  case (Cons x xs)
  show ?case
  proof (cases "k x < r")
    case True
    with Cons show ?thesis by simp
  next
    case False
    with Cons.prems have "\<forall>e\<in>set xs. \<not> k e < r"
      by (auto simp: not_less intro: order_trans)
    with False show ?thesis
      by (simp add: filter_empty_conv)
  qed
qed

lemma sorted_positions:
  fixes k :: "'e \<Rightarrow> nat"
  assumes "sorted (map k es)"
  shows "positions (length (filter (\<lambda>e. k e < r) es)) (length (filter (\<lambda>e. k e < Suc r) es)) es =
         filter (\<lambda>e. k e = r) es"
proof -
  let ?es' = "filter (\<lambda>e. k e < Suc r) es"
  have "sorted (map k ?es')"
    using assms by (rule sorted_filter)
  then have "drop (length (filter (\<lambda>e. k e < r) ?es')) ?es' = filter (\<lambda>e. \<not> k e < r) ?es'"
    using sorted_take_below by blast
  moreover have "filter (\<lambda>e. k e < r) ?es' = filter (\<lambda>e. k e < r) es"
    by (auto intro: filter_cong)
  moreover have "filter (\<lambda>e. \<not> k e < r) ?es' = filter (\<lambda>e. k e = r) es"
    by (auto intro: filter_cong)
  moreover have "take (length ?es') es = ?es'"
    using assms sorted_take_below by blast
  ultimately show ?thesis
    by (simp add: positions_def)
qed

lemma rows_below_mset: "mset es = mset es' \<Longrightarrow> rows_below es m = rows_below es' m"
  unfolding rows_below_def by (metis mset_filter size_mset)

lemma cols_below_mset: "mset es = mset es' \<Longrightarrow> cols_below es m = cols_below es' m"
  unfolding cols_below_def by (metis mset_filter size_mset)

lemma unat_count:
  "n \<le> len \<Longrightarrow> len < 2 ^ LENGTH('a) \<Longrightarrow> unat (word_of_nat n :: 'a::len word) = n"
  by (simp add: unat_of_nat)

text \<open>
  The invariant of a compressed matrix as the specification states it, over the
  accumulated entries \<open>nonzeros\<close> of the decode: the length and the ends of the offsets,
  their monotonicity, and for every major index the positions of the stored (minor index,
  value) pairs between its two offsets: a permutation of the pairs of the entries of that
  row or column, with ascending minor indices.
\<close>

definition csr_invariant :: "('a::len word, 'v) Nonzero list \<Rightarrow> ('a word, 'v) CSRMatrix \<Rightarrow> bool" where
  "csr_invariant nonzeros m \<longleftrightarrow>
     length (row_offsets m) = unat (CSRMatrix.num_rows m) + 1 \<and>
     row_offsets m ! 0 = 0 \<and>
     last (row_offsets m) = CSRMatrix.num_nonzeros m \<and>
     sorted (map unat (row_offsets m)) \<and>
     (\<forall>r < unat (CSRMatrix.num_rows m).
        mset (positions (unat (row_offsets m ! r)) (unat (row_offsets m ! Suc r))
                (zip (col_indices m) (CSRMatrix.values m))) =
          mset (map (\<lambda>e. (col e, value e)) (filter (\<lambda>e. unat (row e) = r) nonzeros)) \<and>
        sorted (map unat (positions (unat (row_offsets m ! r)) (unat (row_offsets m ! Suc r))
                           (col_indices m))))"

definition csc_invariant :: "('a::len word, 'v) Nonzero list \<Rightarrow> ('a word, 'v) CSCMatrix \<Rightarrow> bool" where
  "csc_invariant nonzeros m \<longleftrightarrow>
     length (col_offsets m) = unat (CSCMatrix.num_cols m) + 1 \<and>
     col_offsets m ! 0 = 0 \<and>
     last (col_offsets m) = CSCMatrix.num_nonzeros m \<and>
     sorted (map unat (col_offsets m)) \<and>
     (\<forall>c < unat (CSCMatrix.num_cols m).
        mset (positions (unat (col_offsets m ! c)) (unat (col_offsets m ! Suc c))
                (zip (row_indices m) (CSCMatrix.values m))) =
          mset (map (\<lambda>e. (row e, value e)) (filter (\<lambda>e. unat (col e) = c) nonzeros)) \<and>
        sorted (map unat (positions (unat (col_offsets m ! c)) (unat (col_offsets m ! Suc c))
                           (row_indices m))))"

lemma compressed_invariant:
  fixes es :: "'e list" and major minor :: "'e \<Rightarrow> 'a::len word" and val :: "'e \<Rightarrow> 'v"
  defines "below \<equiv> \<lambda>m. length (filter (\<lambda>e. unat (major e) < m) es)"
  assumes srt: "sorted (map (\<lambda>e. unat (major e)) es)"
    and bound: "\<forall>e\<in>set es. unat (major e) < n"
    and fits: "length es < 2 ^ LENGTH('a)"
    and minor: "sorted_wrt (\<lambda>a b. major a = major b \<longrightarrow> unat (minor a) \<le> unat (minor b)) es"
    and offsets: "offsets = map (\<lambda>m. word_of_nat (below m) :: 'a word) [0..<Suc n]"
  shows "length offsets = n + 1"
    and "offsets ! 0 = 0"
    and "last offsets = word_of_nat (length es)"
    and "sorted (map unat offsets)"
    and "r < n \<Longrightarrow> positions (unat (offsets ! r)) (unat (offsets ! Suc r)) (zip (map minor es) (map val es)) =
           map (\<lambda>e. (minor e, val e)) (filter (\<lambda>e. unat (major e) = r) es)"
    and "r < n \<Longrightarrow> sorted (map unat (positions (unat (offsets ! r)) (unat (offsets ! Suc r)) (map minor es)))"
proof -
  have le: "below m \<le> length es" for m
    by (simp add: below_def)
  have un: "unat (word_of_nat (below m) :: 'a word) = below m" for m
    using le fits by (rule unat_count)
  have nth: "offsets ! m = word_of_nat (below m)" if "m \<le> n" for m
    using that unfolding offsets by (metis add_0 le_imp_less_Suc nth_map_upt diff_zero)
  have mono: "below a \<le> below b" if "a \<le> b" for a b
  proof -
    from that have "filter (\<lambda>e. unat (major e) < a) es =
        filter (\<lambda>e. unat (major e) < a) (filter (\<lambda>e. unat (major e) < b) es)"
      by (auto intro: filter_cong)
    then show ?thesis
      unfolding below_def by (metis length_filter_le)
  qed
  show "length offsets = n + 1"
    by (simp add: offsets)
  show "offsets ! 0 = 0"
    using nth [of 0] by (simp add: below_def)
  have "below n = length es"
    using bound by (simp add: below_def)
  moreover have "last offsets = offsets ! n"
    by (simp add: offsets last_conv_nth del: upt_Suc)
  ultimately show "last offsets = word_of_nat (length es)"
    using nth [of n] by simp
  have "map unat offsets = map below [0..<Suc n]"
    unfolding offsets by (simp add: un comp_def del: upt_Suc)
  moreover have "sorted (map below [0..<Suc n])"
    by (auto simp: sorted_iff_nth_mono mono simp del: upt_Suc)
  ultimately show "sorted (map unat offsets)"
    by simp
  assume r: "r < n"
  then have lo: "unat (offsets ! r) = length (filter (\<lambda>e. unat (major e) < r) es)"
    and hi: "unat (offsets ! Suc r) = length (filter (\<lambda>e. unat (major e) < Suc r) es)"
    using nth [of r] nth [of "Suc r"] un by (simp_all add: below_def)
  have sl: "positions (unat (offsets ! r)) (unat (offsets ! Suc r)) es = filter (\<lambda>e. unat (major e) = r) es"
    unfolding lo hi using srt by (rule sorted_positions)
  have "zip (map minor es) (map val es) = map (\<lambda>e. (minor e, val e)) es"
    by (simp add: zip_map_map zip_same_conv_map)
  then show "positions (unat (offsets ! r)) (unat (offsets ! Suc r)) (zip (map minor es) (map val es)) =
           map (\<lambda>e. (minor e, val e)) (filter (\<lambda>e. unat (major e) = r) es)"
    by (simp add: positions_map sl)
  have "sorted_wrt (\<lambda>a b. major a = major b \<longrightarrow> unat (minor a) \<le> unat (minor b))
          (filter (\<lambda>e. unat (major e) = r) es)"
    using minor by (rule sorted_wrt_filter)
  then have "sorted_wrt (\<lambda>a b. unat (minor a) \<le> unat (minor b)) (filter (\<lambda>e. unat (major e) = r) es)"
    by (rule sorted_wrt_mono_rel [rotated]) (auto simp: word_unat_eq_iff)
  then show "sorted (map unat (positions (unat (offsets ! r)) (unat (offsets ! Suc r)) (map minor es)))"
    by (simp add: positions_map sl sorted_map comp_def)
qed

lemma csr_invariant_sorted:
  fixes es nonzeros :: "('a::len word, 'v) Nonzero list"
  assumes perm: "mset es = mset nonzeros"
    and srt: "sorted_wrt (\<lambda>a b. \<not> csr_less b a) es"
    and bound: "\<forall>e\<in>set nonzeros. unat (row e) < unat (Header.num_rows header)"
    and fits: "length nonzeros < 2 ^ LENGTH('a)"
  shows "csr_invariant nonzeros (compress_csr header es)"
proof -
  let ?n = "unat (Header.num_rows header)"
  let ?offsets = "map (\<lambda>m. word_of_nat (rows_below es m) :: 'a word) [0..<Suc ?n]"
  have set_eq: "set es = set nonzeros" and len: "length es = length nonzeros"
    using perm by (auto dest: mset_eq_setD mset_eq_length)
  have major: "sorted (map (\<lambda>e. unat (row e)) es)"
    unfolding sorted_map
    by (rule sorted_wrt_mono_rel [OF _ srt]) (auto simp: csr_less_def word_less_nat_alt)
  have minor: "sorted_wrt (\<lambda>a b. row a = row b \<longrightarrow> unat (col a) \<le> unat (col b)) es"
    by (rule sorted_wrt_mono_rel [OF _ srt]) (auto simp: csr_less_def word_less_nat_alt)
  have bound': "\<forall>e\<in>set es. unat (row e) < ?n"
    using bound set_eq by simp
  have fits': "length es < 2 ^ LENGTH('a)"
    using fits len by simp
  define offsets where "offsets = ?offsets"
  have off: "offsets = map (\<lambda>m. word_of_nat (length (filter (\<lambda>e. unat (row e) < m) es)) :: 'a word) [0..<Suc ?n]"
    by (simp add: offsets_def rows_below_def)
  note inv = compressed_invariant [OF major bound' fits' minor off]
  have m: "compress_csr header es =
           \<lparr>CSRMatrix.num_rows = Header.num_rows header,
            CSRMatrix.num_cols = Header.num_cols header,
            CSRMatrix.num_nonzeros = word_of_nat (length es),
            row_offsets = offsets,
            col_indices = map col es,
            CSRMatrix.values = map value es\<rparr>"
    unfolding offsets_def using major bound' by (rule compress_csr_eq)
  have pairs: "mset (positions (unat (offsets ! r)) (unat (offsets ! Suc r)) (zip (map col es) (map value es))) =
        mset (map (\<lambda>e. (col e, value e)) (filter (\<lambda>e. unat (row e) = r) nonzeros))"
    if "r < ?n" for r
    using inv(5) [OF that, of "value"] perm by simp
  show ?thesis
    unfolding csr_invariant_def m
    using inv(1-4) inv(6) pairs
    by simp
qed


lemma csc_invariant_sorted:
  fixes es nonzeros :: "('a::len word, 'v) Nonzero list"
  assumes perm: "mset es = mset nonzeros"
    and srt: "sorted_wrt (\<lambda>a b. \<not> csc_less b a) es"
    and bound: "\<forall>e\<in>set nonzeros. unat (col e) < unat (Header.num_cols header)"
    and fits: "length nonzeros < 2 ^ LENGTH('a)"
  shows "csc_invariant nonzeros (compress_csc header es)"
proof -
  let ?n = "unat (Header.num_cols header)"
  let ?offsets = "map (\<lambda>m. word_of_nat (cols_below es m) :: 'a word) [0..<Suc ?n]"
  have set_eq: "set es = set nonzeros" and len: "length es = length nonzeros"
    using perm by (auto dest: mset_eq_setD mset_eq_length)
  have major: "sorted (map (\<lambda>e. unat (col e)) es)"
    unfolding sorted_map
    by (rule sorted_wrt_mono_rel [OF _ srt]) (auto simp: csc_less_def word_less_nat_alt)
  have minor: "sorted_wrt (\<lambda>a b. col a = col b \<longrightarrow> unat (row a) \<le> unat (row b)) es"
    by (rule sorted_wrt_mono_rel [OF _ srt]) (auto simp: csc_less_def word_less_nat_alt)
  have bound': "\<forall>e\<in>set es. unat (col e) < ?n"
    using bound set_eq by simp
  have fits': "length es < 2 ^ LENGTH('a)"
    using fits len by simp
  define offsets where "offsets = ?offsets"
  have off: "offsets = map (\<lambda>m. word_of_nat (length (filter (\<lambda>e. unat (col e) < m) es)) :: 'a word) [0..<Suc ?n]"
    by (simp add: offsets_def cols_below_def)
  note inv = compressed_invariant [OF major bound' fits' minor off]
  have m: "compress_csc header es =
           \<lparr>CSCMatrix.num_rows = Header.num_rows header,
            CSCMatrix.num_cols = Header.num_cols header,
            CSCMatrix.num_nonzeros = word_of_nat (length es),
            col_offsets = offsets,
            row_indices = map row es,
            CSCMatrix.values = map value es\<rparr>"
    unfolding offsets_def using major bound' by (rule compress_csc_eq)
  have pairs: "mset (positions (unat (offsets ! r)) (unat (offsets ! Suc r)) (zip (map row es) (map value es))) =
        mset (map (\<lambda>e. (row e, value e)) (filter (\<lambda>e. unat (col e) = r) nonzeros))"
    if "r < ?n" for r
    using inv(5) [OF that, of "value"] perm by simp
  show ?thesis
    unfolding csc_invariant_def m
    using inv(1-4) inv(6) pairs
    by simp
qed


text \<open>
  C1, as the code has it. When the decode succeeds, the matrix is general or, if
  symmetric, square, and the entries after symmetry expansion number fewer than
  \<open>2 ^ LENGTH('a)\<close>, the matrix \<open>read_csr\<close> returns and the matrix \<open>read_csc\<close> returns
  carry the dimensions of the header, hold as many indices and values as there are
  entries, with \<open>num_nonzeros\<close> that count, and satisfy the structural invariant.
\<close>

theorem C1_structural_invariant:
  fixes pn :: "string \<Rightarrow> 'v::one" and header :: "'a::len word Header"
  assumes contract: "std_sort_contract srt"
    and coo: "read_coo pn contents = Some (Inr (header, nonzeros))"
    and square: "symmetry header = GENERAL \<or> Header.num_rows header = Header.num_cols header"
    and fits: "length nonzeros < 2 ^ LENGTH('a)"
  shows "(\<exists>m. read_csr pn srt (Some contents) = Some (Inr m) \<and>
              CSRMatrix.num_rows m = Header.num_rows header \<and>
              CSRMatrix.num_cols m = Header.num_cols header \<and>
              unat (CSRMatrix.num_nonzeros m) = length nonzeros \<and>
              length (col_indices m) = length nonzeros \<and>
              length (CSRMatrix.values m) = length nonzeros \<and>
              csr_invariant nonzeros m) \<and>
         (\<exists>m. read_csc pn srt (Some contents) = Some (Inr m) \<and>
              CSCMatrix.num_rows m = Header.num_rows header \<and>
              CSCMatrix.num_cols m = Header.num_cols header \<and>
              unat (CSCMatrix.num_nonzeros m) = length nonzeros \<and>
              length (row_indices m) = length nonzeros \<and>
              length (CSCMatrix.values m) = length nonzeros \<and>
              csc_invariant nonzeros m)"
proof -
  have rows: "\<forall>e\<in>set nonzeros. unat (row e) < unat (Header.num_rows header)"
    using coo
  proof (rule read_coo_invariant)
    fix l pushed
    assume "read_entry pn header l = Inr pushed"
    then show "\<forall>e\<in>set pushed. unat (row e) < unat (Header.num_rows header)"
      using square by (intro read_entry_row_bound) auto
  qed
  have cols: "\<forall>e\<in>set nonzeros. unat (col e) < unat (Header.num_cols header)"
    using coo
  proof (rule read_coo_invariant)
    fix l pushed
    assume "read_entry pn header l = Inr pushed"
    then show "\<forall>e\<in>set pushed. unat (col e) < unat (Header.num_cols header)"
      using square by (intro read_entry_col_bound) auto
  qed
  have r: "mset (srt csr_less nonzeros) = mset nonzeros"
    "sorted_wrt (\<lambda>a b. \<not> csr_less b a) (srt csr_less nonzeros)"
    using contract swo_csr_less unfolding std_sort_contract_def by blast+
  have c: "mset (srt csc_less nonzeros) = mset nonzeros"
    "sorted_wrt (\<lambda>a b. \<not> csc_less b a) (srt csc_less nonzeros)"
    using contract swo_csc_less unfolding std_sort_contract_def by blast+
  have lr: "length (srt csr_less nonzeros) = length nonzeros"
    using r(1) by (rule mset_eq_length)
  have lc: "length (srt csc_less nonzeros) = length nonzeros"
    using c(1) by (rule mset_eq_length)
  have n: "unat (word_of_nat (length nonzeros) :: 'a word) = length nonzeros"
    using fits by (simp add: unat_of_nat)
  have "csr_invariant nonzeros (compress_csr header (srt csr_less nonzeros))"
    using r rows fits by (rule csr_invariant_sorted)
  moreover have "csc_invariant nonzeros (compress_csc header (srt csc_less nonzeros))"
    using c cols fits by (rule csc_invariant_sorted)
  ultimately show ?thesis
    using coo n by (simp add: read_csr_coo read_csc_coo compress_csr_fields compress_csc_fields lr lc)
qed

lemmas compress_simps =
  read_csr_coo read_csc_coo read_coo_def compress_csr_def compress_csc_def insertion_sort_def
  csr_less_def csc_less_def offsets_while.simps

theorem C1_structural_invariant_witness:
  "read_csr (parse_int :: string \<Rightarrow> 32 word) insertion_sort
     (Some (unlines [''%%MatrixMarket matrix coordinate integer symmetric'', ''3 3 2'', ''3 1 4'', ''2 2 5''])) =
     Some (Inr \<lparr>CSRMatrix.num_rows = 3 :: 32 word, CSRMatrix.num_cols = 3, CSRMatrix.num_nonzeros = 3,
                 row_offsets = [0, 1, 2, 3], col_indices = [2, 1, 0], CSRMatrix.values = [4, 5, 4]\<rparr>) \<and>
   csr_invariant
     [\<lparr>row = 2 :: 32 word, col = 0, value = 4 :: 32 word\<rparr>, \<lparr>row = 0, col = 2, value = 4\<rparr>,
      \<lparr>row = 1, col = 1, value = 5\<rparr>]
     \<lparr>CSRMatrix.num_rows = 3 :: 32 word, CSRMatrix.num_cols = 3, CSRMatrix.num_nonzeros = 3,
      row_offsets = [0, 1, 2, 3], col_indices = [2, 1, 0], CSRMatrix.values = [4, 5, 4]\<rparr> \<and>
   csc_invariant
     [\<lparr>row = 2 :: 32 word, col = 0, value = 4 :: 32 word\<rparr>, \<lparr>row = 0, col = 2, value = 4\<rparr>,
      \<lparr>row = 1, col = 1, value = 5\<rparr>]
     \<lparr>CSCMatrix.num_rows = 3 :: 32 word, CSCMatrix.num_cols = 3, CSCMatrix.num_nonzeros = 3,
      col_offsets = [0, 1, 2, 3], row_indices = [2, 1, 0], CSCMatrix.values = [4, 5, 4]\<rparr>"
proof -
  let ?f = "unlines [''%%MatrixMarket matrix coordinate integer symmetric'', ''3 3 2'', ''3 1 4'', ''2 2 5'']"
  let ?h = "\<lparr>symmetry = SYMMETRIC, value_type = INTEGER, Header.num_rows = 3 :: 32 word,
             Header.num_cols = 3, Header.num_nonzeros = 2\<rparr>"
  let ?nz = "[\<lparr>row = 2 :: 32 word, col = 0, value = 4 :: 32 word\<rparr>, \<lparr>row = 0, col = 2, value = 4\<rparr>,
      \<lparr>row = 1, col = 1, value = 5\<rparr>]"
  have coo: "read_coo (parse_int :: string \<Rightarrow> 32 word) ?f = Some (Inr (?h, ?nz))"
    by (simp add: read_coo_def eval_simps)
  have sq: "symmetry ?h = GENERAL \<or> Header.num_rows ?h = Header.num_cols ?h"
    by simp
  have fits: "length ?nz < 2 ^ LENGTH(32)"
    by simp
  have r: "read_csr (parse_int :: string \<Rightarrow> 32 word) insertion_sort (Some ?f) =
     Some (Inr \<lparr>CSRMatrix.num_rows = 3 :: 32 word, CSRMatrix.num_cols = 3, CSRMatrix.num_nonzeros = 3,
                 row_offsets = [0, 1, 2, 3], col_indices = [2, 1, 0], CSRMatrix.values = [4, 5, 4]\<rparr>)"
    by (simp add: read_csr_coo coo compress_csr_def insertion_sort_def csr_less_def offsets_while.simps)
  have c: "read_csc (parse_int :: string \<Rightarrow> 32 word) insertion_sort (Some ?f) =
     Some (Inr \<lparr>CSCMatrix.num_rows = 3 :: 32 word, CSCMatrix.num_cols = 3, CSCMatrix.num_nonzeros = 3,
      col_offsets = [0, 1, 2, 3], row_indices = [2, 1, 0], CSCMatrix.values = [4, 5, 4]\<rparr>)"
    by (simp add: read_csc_coo coo compress_csc_def insertion_sort_def csc_less_def offsets_while.simps)
  from C1_structural_invariant [OF insertion_sort_contract coo sq fits] r c
  show ?thesis
    by simp
qed

text \<open>
  The claim as the specification words it, for every file on which the decode succeeds,
  fails where a symmetric file declares a matrix that is not square: the mirrored entry is
  pushed with no bounds check and its row may lie beyond \<open>num_rows\<close>. Here the last offset is
  1 and \<open>num_nonzeros\<close> is 2.
\<close>

definition nonsquare_symmetric :: string where
  "nonsquare_symmetric =
     unlines [''%%MatrixMarket matrix coordinate integer symmetric'', ''2 3 1'', ''1 3 7'']"

lemma nonsquare_symmetric_csr:
  "read_csr (parse_int :: string \<Rightarrow> 32 word) insertion_sort (Some nonsquare_symmetric) =
     Some (Inr \<lparr>CSRMatrix.num_rows = 2 :: 32 word, CSRMatrix.num_cols = 3, CSRMatrix.num_nonzeros = 2,
                 row_offsets = [0, 1, 1], col_indices = [2, 0], CSRMatrix.values = [7, 7]\<rparr>)"
  by (simp add: nonsquare_symmetric_def compress_simps eval_simps)

lemma nonsquare_symmetric_csc:
  "read_csc (parse_int :: string \<Rightarrow> 32 word) insertion_sort (Some nonsquare_symmetric) =
     Some (Inr \<lparr>CSCMatrix.num_rows = 2 :: 32 word, CSCMatrix.num_cols = 3, CSCMatrix.num_nonzeros = 2,
                 col_offsets = [0, 1, 1, 2], row_indices = [2, 0], CSCMatrix.values = [7, 7]\<rparr>)"
  by (simp add: nonsquare_symmetric_def compress_simps eval_simps)

section \<open>More entries than the coordinate type counts\<close>

text \<open>
  A symmetric pattern file of a 2 by 2 matrix that lists the entry \<open>1 2\<close> 32768 times,
  decoded with a 16-bit coordinate type (\<open>unsigned short\<close>). The 65536 entries after
  symmetry expansion are one more than the type counts.
\<close>

definition overflow_file :: string where
  "overflow_file =
     unlines [''%%MatrixMarket matrix coordinate pattern symmetric'', ''2 2 32768'']
       @ unlines (replicate 32768 ''1 2'')"

lemma read_entries_replicate:
  "read_entry pn header l = Inr pushed \<Longrightarrow>
   read_entries pn header (replicate n l) = Inr (concat (replicate n pushed))"
  by (induction n) simp_all

lemma count_concat_replicate:
  "count (mset (concat (replicate n xs))) x = n * count (mset xs) x"
  by (induction n) simp_all

lemma two_valued_sorted:
  assumes "sorted_wrt (\<lambda>x y. \<not> lt y x) ys" and "set ys \<subseteq> {a, b}" and "lt a b" and ne: "a \<noteq> b"
  shows "ys = replicate (count (mset ys) a) a @ replicate (count (mset ys) b) b"
  using assms(1,2)
proof (induction ys)
  case Nil
  then show ?case by simp
next
  case (Cons y ys)
  from Cons have IH: "ys = replicate (count (mset ys) a) a @ replicate (count (mset ys) b) b"
    by simp
  show ?case
  proof (cases "y = a")
    case True
    with ne IH show ?thesis by simp
  next
    case False
    with Cons.prems(2) have yb: "y = b" by simp
    have "a \<notin> set ys"
    proof
      assume "a \<in> set ys"
      with Cons.prems(1) yb have "\<not> lt a b" by simp
      with assms(3) show False by simp
    qed
    then have "count (mset ys) a = 0"
      by (simp add: count_eq_zero_iff)
    with yb ne IH show ?thesis by simp
  qed
qed


lemma overflow_file_coo:
  fixes pn :: "string \<Rightarrow> 'v::one"
  shows "read_coo pn overflow_file =
           Some (Inr (\<lparr>symmetry = SYMMETRIC, value_type = PATTERN, Header.num_rows = 2 :: 16 word,
                        Header.num_cols = 2, Header.num_nonzeros = 32768\<rparr>,
                      concat (replicate 32768 [\<lparr>row = 0, col = 1, value = 1\<rparr>, \<lparr>row = 1, col = 0, value = 1\<rparr>])))"
proof -
  define n :: nat where "n = 32768"
  let ?h = "\<lparr>symmetry = SYMMETRIC, value_type = PATTERN, Header.num_rows = 2 :: 16 word,
             Header.num_cols = 2, Header.num_nonzeros = 32768\<rparr>"
  let ?a = "\<lparr>row = 0 :: 16 word, col = 1 :: 16 word, value = 1 :: 'v\<rparr>"
  let ?b = "\<lparr>row = 1 :: 16 word, col = 0 :: 16 word, value = 1 :: 'v\<rparr>"
  have fl: "overflow_file =
     unlines [''%%MatrixMarket matrix coordinate pattern symmetric'', ''2 2 32768'']
       @ (unlines (replicate n ''1 2'') @ [])"
    by (simp add: overflow_file_def n_def)
  have hdr: "read_header (open_stream
        (unlines [''%%MatrixMarket matrix coordinate pattern symmetric'', ''2 2 32768''] @ rest)) =
      Some (Inr (?h, open_stream rest))" for rest
    by (simp add: eval_simps)
  have entry: "read_entry pn ?h ''1 2'' = Inr [?a, ?b]"
    by (simp add: eval_simps)
  have "read_nonzeros pn ?h 0 (open_stream (unlines (replicate n ''1 2'') @ [])) [] =
          (case read_entries pn ?h (replicate n ''1 2'') of
              Inl e \<Rightarrow> Inl e
            | Inr es \<Rightarrow> Inr (es, open_stream []))"
    by (rule read_nonzeros_all) (simp_all add: n_def)
  then have "read_nonzeros pn ?h 0 (open_stream (unlines (replicate n ''1 2'') @ [])) [] =
          Inr (concat (replicate n [?a, ?b]), open_stream [])"
    by (simp add: read_entries_replicate [OF entry])
  then show ?thesis
    unfolding read_coo_def fl hdr by (simp add: n_def)
qed

lemma overflow_file_csr:
  fixes pn :: "string \<Rightarrow> 'v::one"
  assumes "std_sort_contract srt"
  shows "read_csr pn srt (Some overflow_file) =
           Some (Inr \<lparr>CSRMatrix.num_rows = 2 :: 16 word, CSRMatrix.num_cols = 2, CSRMatrix.num_nonzeros = 0,
                       row_offsets = [0, 32768, 0],
                       col_indices = replicate 32768 1 @ replicate 32768 0,
                       CSRMatrix.values = replicate 32768 1 @ replicate 32768 1\<rparr>)"
proof -
  define n :: nat where "n = 32768"
  let ?h = "\<lparr>symmetry = SYMMETRIC, value_type = PATTERN, Header.num_rows = 2 :: 16 word,
             Header.num_cols = 2, Header.num_nonzeros = 32768\<rparr>"
  let ?a = "\<lparr>row = 0 :: 16 word, col = 1 :: 16 word, value = 1 :: 'v\<rparr>"
  let ?b = "\<lparr>row = 1 :: 16 word, col = 0 :: 16 word, value = 1 :: 'v\<rparr>"
  let ?nz = "concat (replicate n [?a, ?b])"
  let ?es = "srt csr_less ?nz"
  have perm: "mset ?es = mset ?nz" and srt: "sorted_wrt (\<lambda>x y. \<not> csr_less y x) ?es"
    using assms swo_csr_less unfolding std_sort_contract_def by blast+
  have "set ?es = set ?nz"
    using perm by (rule mset_eq_setD)
  then have sub: "set ?es \<subseteq> {?a, ?b}"
    by (auto split: if_splits)
  have "?es = replicate (count (mset ?es) ?a) ?a @ replicate (count (mset ?es) ?b) ?b"
    using srt sub by (rule two_valued_sorted) (simp_all add: csr_less_def)
  then have es: "?es = replicate n ?a @ replicate n ?b"
    by (simp add: perm count_concat_replicate)
  have "compress_csr ?h (replicate n ?a @ replicate n ?b) =
           \<lparr>CSRMatrix.num_rows = Header.num_rows ?h,
            CSRMatrix.num_cols = Header.num_cols ?h,
            CSRMatrix.num_nonzeros = word_of_nat (length (replicate n ?a @ replicate n ?b)),
            row_offsets = map (\<lambda>m. word_of_nat (rows_below (replicate n ?a @ replicate n ?b) m))
                            [0..<Suc (unat (Header.num_rows ?h))],
            col_indices = map col (replicate n ?a @ replicate n ?b),
            CSRMatrix.values = map value (replicate n ?a @ replicate n ?b)\<rparr>"
    by (rule compress_csr_eq) (auto simp: sorted_append)
  moreover have "[0..<Suc (unat (2 :: 16 word))] = [0, 1, 2]"
    by (simp add: upt_rec)
  ultimately have "compress_csr ?h (replicate n ?a @ replicate n ?b) =
           \<lparr>CSRMatrix.num_rows = 2 :: 16 word, CSRMatrix.num_cols = 2, CSRMatrix.num_nonzeros = 0,
                       row_offsets = [0, 32768, 0],
                       col_indices = replicate n 1 @ replicate n 0,
                       CSRMatrix.values = replicate n 1 @ replicate n 1\<rparr>"
    by (simp add: rows_below_def n_def)
  then show ?thesis
    using es by (simp add: read_csr_coo overflow_file_coo n_def)
qed


lemma overflow_file_csc:
  fixes pn :: "string \<Rightarrow> 'v::one"
  assumes "std_sort_contract srt"
  shows "read_csc pn srt (Some overflow_file) =
           Some (Inr \<lparr>CSCMatrix.num_rows = 2 :: 16 word, CSCMatrix.num_cols = 2, CSCMatrix.num_nonzeros = 0,
                       col_offsets = [0, 32768, 0],
                       row_indices = replicate 32768 1 @ replicate 32768 0,
                       CSCMatrix.values = replicate 32768 1 @ replicate 32768 1\<rparr>)"
proof -
  define n :: nat where "n = 32768"
  let ?h = "\<lparr>symmetry = SYMMETRIC, value_type = PATTERN, Header.num_rows = 2 :: 16 word,
             Header.num_cols = 2, Header.num_nonzeros = 32768\<rparr>"
  let ?a = "\<lparr>row = 0 :: 16 word, col = 1 :: 16 word, value = 1 :: 'v\<rparr>"
  let ?b = "\<lparr>row = 1 :: 16 word, col = 0 :: 16 word, value = 1 :: 'v\<rparr>"
  let ?nz = "concat (replicate n [?a, ?b])"
  let ?es = "srt csc_less ?nz"
  have perm: "mset ?es = mset ?nz" and srt: "sorted_wrt (\<lambda>x y. \<not> csc_less y x) ?es"
    using assms swo_csc_less unfolding std_sort_contract_def by blast+
  have "set ?es = set ?nz"
    using perm by (rule mset_eq_setD)
  then have sub: "set ?es \<subseteq> {?b, ?a}"
    by (auto split: if_splits)
  have "?es = replicate (count (mset ?es) ?b) ?b @ replicate (count (mset ?es) ?a) ?a"
    using srt sub by (rule two_valued_sorted) (simp_all add: csc_less_def)
  then have es: "?es = replicate n ?b @ replicate n ?a"
    by (simp add: perm count_concat_replicate)
  have "compress_csc ?h (replicate n ?b @ replicate n ?a) =
           \<lparr>CSCMatrix.num_rows = Header.num_rows ?h,
            CSCMatrix.num_cols = Header.num_cols ?h,
            CSCMatrix.num_nonzeros = word_of_nat (length (replicate n ?b @ replicate n ?a)),
            col_offsets = map (\<lambda>m. word_of_nat (cols_below (replicate n ?b @ replicate n ?a) m))
                            [0..<Suc (unat (Header.num_cols ?h))],
            row_indices = map row (replicate n ?b @ replicate n ?a),
            CSCMatrix.values = map value (replicate n ?b @ replicate n ?a)\<rparr>"
    by (rule compress_csc_eq) (auto simp: sorted_append)
  moreover have "[0..<Suc (unat (2 :: 16 word))] = [0, 1, 2]"
    by (simp add: upt_rec)
  ultimately have "compress_csc ?h (replicate n ?b @ replicate n ?a) =
           \<lparr>CSCMatrix.num_rows = 2 :: 16 word, CSCMatrix.num_cols = 2, CSCMatrix.num_nonzeros = 0,
                       col_offsets = [0, 32768, 0],
                       row_indices = replicate n 1 @ replicate n 0,
                       CSCMatrix.values = replicate n 1 @ replicate n 1\<rparr>"
    by (simp add: cols_below_def n_def)
  then show ?thesis
    using es by (simp add: read_csc_coo overflow_file_coo n_def)
qed



text \<open>
  The claim C1 as the specification words it fails on both files: for the symmetric file
  that is not square the last offset (1) is not \<open>num_nonzeros\<close> (2), and for the file of
  65536 entries the offsets \<open>[0, 32768, 0]\<close> decrease.
\<close>

theorem C1_counterexample:
  "read_csr (parse_int :: string \<Rightarrow> 32 word) insertion_sort (Some nonsquare_symmetric) =
     Some (Inr \<lparr>CSRMatrix.num_rows = 2 :: 32 word, CSRMatrix.num_cols = 3, CSRMatrix.num_nonzeros = 2,
                 row_offsets = [0, 1, 1], col_indices = [2, 0], CSRMatrix.values = [7, 7]\<rparr>) \<and>
   \<not> csr_invariant [\<lparr>row = 0 :: 32 word, col = 2, value = 7 :: 32 word\<rparr>, \<lparr>row = 2, col = 0, value = 7\<rparr>]
       \<lparr>CSRMatrix.num_rows = 2 :: 32 word, CSRMatrix.num_cols = 3, CSRMatrix.num_nonzeros = 2,
        row_offsets = [0, 1, 1], col_indices = [2, 0], CSRMatrix.values = [7, 7]\<rparr> \<and>
   read_csr (parse_int :: string \<Rightarrow> 16 word) insertion_sort (Some overflow_file) =
     Some (Inr \<lparr>CSRMatrix.num_rows = 2 :: 16 word, CSRMatrix.num_cols = 2, CSRMatrix.num_nonzeros = 0,
                 row_offsets = [0, 32768, 0],
                 col_indices = replicate 32768 1 @ replicate 32768 0,
                 CSRMatrix.values = replicate 32768 1 @ replicate 32768 1\<rparr>) \<and>
   \<not> csr_invariant
       (concat (replicate 32768 [\<lparr>row = 0 :: 16 word, col = 1, value = 1 :: 16 word\<rparr>,
                                 \<lparr>row = 1, col = 0, value = 1\<rparr>]))
       \<lparr>CSRMatrix.num_rows = 2 :: 16 word, CSRMatrix.num_cols = 2, CSRMatrix.num_nonzeros = 0,
        row_offsets = [0, 32768, 0],
        col_indices = replicate 32768 1 @ replicate 32768 0,
        CSRMatrix.values = replicate 32768 1 @ replicate 32768 1\<rparr>"
proof -
  have "last [0, 1, 1] \<noteq> (2 :: 32 word)"
    by simp
  then have a: "\<not> csr_invariant [\<lparr>row = 0 :: 32 word, col = 2, value = 7 :: 32 word\<rparr>, \<lparr>row = 2, col = 0, value = 7\<rparr>]
       \<lparr>CSRMatrix.num_rows = 2 :: 32 word, CSRMatrix.num_cols = 3, CSRMatrix.num_nonzeros = 2,
        row_offsets = [0, 1, 1], col_indices = [2, 0], CSRMatrix.values = [7, 7]\<rparr>"
    unfolding csr_invariant_def by (metis CSRMatrix.select_convs(3,4))
  have "\<not> sorted (map unat [0, 32768, 0 :: 16 word])"
    by simp
  then have b: "\<not> csr_invariant
       (concat (replicate 32768 [\<lparr>row = 0 :: 16 word, col = 1, value = 1 :: 16 word\<rparr>,
                                 \<lparr>row = 1, col = 0, value = 1\<rparr>]))
       \<lparr>CSRMatrix.num_rows = 2 :: 16 word, CSRMatrix.num_cols = 2, CSRMatrix.num_nonzeros = 0,
        row_offsets = [0, 32768, 0],
        col_indices = replicate 32768 1 @ replicate 32768 0,
        CSRMatrix.values = replicate 32768 1 @ replicate 32768 1\<rparr>"
    unfolding csr_invariant_def by (metis CSRMatrix.select_convs(4))
  from a b show ?thesis
    using nonsquare_symmetric_csr overflow_file_csr [OF insertion_sort_contract, of "parse_int :: string \<Rightarrow> 16 word"]
    by blast
qed

section \<open>Data lines (claims C5, C6 and C2)\<close>

text \<open>
  A data line as the specification describes it: its shape (2 tokens in a pattern file, 3
  otherwise), the bounds of its 1-indexed row and column, the 0-indexed entry it stands
  for and the entries the reader appends for it.
\<close>

definition row1 :: "string \<Rightarrow> 'a::len word" where
  "row1 l = parse_int (Tokens l CHR '' '' ! 0)"

definition col1 :: "string \<Rightarrow> 'a::len word" where
  "col1 l = parse_int (Tokens l CHR '' '' ! 1)"

definition well_shaped :: "'a::len word Header \<Rightarrow> string \<Rightarrow> bool" where
  "well_shaped header l \<longleftrightarrow>
     length (Tokens l CHR '' '') = (if value_type header = PATTERN then 2 else 3)"

definition in_bounds :: "'a::len word Header \<Rightarrow> string \<Rightarrow> bool" where
  "in_bounds header l \<longleftrightarrow>
     1 \<le> (row1 l :: 'a word) \<and> row1 l \<le> Header.num_rows header \<and>
     1 \<le> (col1 l :: 'a word) \<and> col1 l \<le> Header.num_cols header"

definition entry_of :: "(string \<Rightarrow> 'v::one) \<Rightarrow> 'a::len word Header \<Rightarrow> string \<Rightarrow> ('a word, 'v) Nonzero" where
  "entry_of pn header l =
     \<lparr>row = row1 l - 1, col = col1 l - 1,
      value = (if value_type header = PATTERN then 1 else pn (Tokens l CHR '' '' ! 2))\<rparr>"

definition appended :: "(string \<Rightarrow> 'v::one) \<Rightarrow> 'a::len word Header \<Rightarrow> string \<Rightarrow> ('a word, 'v) Nonzero list" where
  "appended pn header l =
     entry_of pn header l #
       (if symmetry header = SYMMETRIC \<and> row1 l \<noteq> (col1 l :: 'a word)
        then [transposed (entry_of pn header l)] else [])"

lemma read_entry_cases:
  fixes header :: "'a::len word Header"
  shows "read_entry pn header l =
     (if \<not> well_shaped header l
      then Inl (FormatError (if value_type header = PATTERN then ''Bad Matrix: ill-shaped pattern line''
                             else ''Bad Matrix: ill-shaped value line''))
      else if \<not> (1 \<le> (row1 l :: 'a::len word) \<and> row1 l \<le> Header.num_rows header)
      then Inl (FormatError ''Bad Matrix: row out of bounds'')
      else if \<not> (1 \<le> (col1 l :: 'a word) \<and> col1 l \<le> Header.num_cols header)
      then Inl (FormatError ''Bad Matrix: col out of bounds'')
      else Inr (appended pn header l))"
proof -
  let ?r = "row1 l :: 'a word" and ?c = "col1 l :: 'a word"
  have sub: "?r - 1 \<noteq> ?c - 1 \<longleftrightarrow> ?r \<noteq> ?c"
    by simp
  consider (shape) "\<not> well_shaped header l"
    | (row) "well_shaped header l" "?r < 1 \<or> Header.num_rows header < ?r"
    | (col) "well_shaped header l" "\<not> (?r < 1 \<or> Header.num_rows header < ?r)"
        "?c < 1 \<or> Header.num_cols header < ?c"
    | (ok) "well_shaped header l" "\<not> (?r < 1 \<or> Header.num_rows header < ?r)"
        "\<not> (?c < 1 \<or> Header.num_cols header < ?c)"
    by blast
  then show ?thesis
  proof cases
    case shape
    then show ?thesis
      by (auto simp: read_entry_eq Let_def well_shaped_def split: if_splits)
  next
    case row
    then show ?thesis
      unfolding read_entry_eq Let_def row1_def col1_def well_shaped_def
      by (auto simp: not_le split: if_splits)
  next
    case col
    then show ?thesis
      unfolding read_entry_eq Let_def row1_def col1_def well_shaped_def
      by (auto simp: not_le split: if_splits)
  next
    case ok
    then show ?thesis
      using sub
      unfolding read_entry_eq Let_def row1_def col1_def well_shaped_def appended_def entry_of_def
        transposed_def
      by (auto simp: not_le not_less split: if_splits)
  qed
qed

lemma read_entry_Inr:
  "read_entry pn header l = Inr pushed \<longleftrightarrow>
     well_shaped header l \<and> in_bounds header l \<and> pushed = appended pn header l"
  by (auto simp: read_entry_cases in_bounds_def)

lemma read_entry_Inl:
  "(\<exists>e. read_entry pn header l = Inl e) \<longleftrightarrow> \<not> (well_shaped header l \<and> in_bounds header l)"
  by (auto simp: read_entry_cases in_bounds_def)


lemma read_entries_Inr:
  "read_entries pn header ls = Inr es \<longleftrightarrow>
     (\<forall>l\<in>set ls. well_shaped header l \<and> in_bounds header l) \<and>
     es = concat (map (appended pn header) ls)"
proof (induction ls arbitrary: es)
  case Nil
  show ?case by auto
next
  case (Cons l ls)
  show ?case
  proof (cases "read_entry pn header l")
    case (Inl e)
    then have "\<not> (well_shaped header l \<and> in_bounds header l)"
      using read_entry_Inl by blast
    with Inl show ?thesis by auto
  next
    case (Inr pushed)
    then have l: "well_shaped header l" "in_bounds header l" "pushed = appended pn header l"
      by (simp_all add: read_entry_Inr)
    show ?thesis
    proof (cases "read_entries pn header ls")
      case (Inl e)
      with Cons [of "[]"] Cons have "\<not> (\<forall>l\<in>set ls. well_shaped header l \<and> in_bounds header l)"
        by (metis sum.distinct(1))
      with Inl Inr show ?thesis by auto
    next
      case rest: (Inr es')
      with Cons [of es'] have "(\<forall>l\<in>set ls. well_shaped header l \<and> in_bounds header l)"
        "es' = concat (map (appended pn header) ls)"
        by simp_all
      with Inr rest l show ?thesis by auto
    qed
  qed
qed



text \<open>The decode of a file whose header parses and leaves the data lines \<open>ls\<close> to read.\<close>

lemma read_coo_lines:
  assumes "read_header (open_stream contents) = Some (Inr (header, open_stream (unlines ls @ rest)))"
    and "length ls = unat (Header.num_nonzeros header)"
    and "\<forall>l\<in>set ls. CHR 0x0A \<notin> set l"
  shows "read_coo pn contents =
           (case read_entries pn header ls of
              Inl e \<Rightarrow> Some (Inl e)
            | Inr es \<Rightarrow> Some (Inr (header, es)))"
  using read_nonzeros_all [OF assms(3,2), of pn rest] assms(1)
  by (simp add: read_coo_def split: sum.splits)






text \<open>The second scenario of the specification.\<close>

definition scenario_symmetric :: string where
  "scenario_symmetric =
     unlines [''%%MatrixMarket matrix coordinate real symmetric'', ''3 3 1'', ''1 2 4.0'']"

lemma length_appended:
  fixes header :: "'a::len word Header"
  assumes "symmetry header = SYMMETRIC"
  shows "length (concat (map (appended pn header) ls)) =
           2 * length (filter (\<lambda>l. (row1 l :: 'a word) \<noteq> col1 l) ls) +
           length (filter (\<lambda>l. (row1 l :: 'a word) = col1 l) ls)"
  using assms by (induction ls) (simp_all add: appended_def)

text \<open>
  C2, as the code has it. In a symmetric file that decodes, with \<open>k\<close> data lines whose row
  and column differ and \<open>d\<close> whose row and column agree, the accumulated entries are, line
  by line, the entry of the line followed by its mirror \<open>(col, row, value)\<close> when row and
  column differ; the compressed matrix holds \<open>2 * k + d\<close> indices and values, and
  \<open>num_nonzeros\<close> is that count cast to the coordinate type: \<open>2 * k + d\<close> itself when the
  type can count that far. The symmetric scenario yields \<open>num_nonzeros = 2\<close>,
  \<open>row_offsets = [0, 1, 2, 2]\<close> and \<open>col_indices = [1, 0]\<close>.
\<close>

theorem C2_symmetry_doubling:
  fixes pn :: "string \<Rightarrow> 'v::one" and header :: "'a::len word Header"
    and srt :: "(('a word, 'v) Nonzero \<Rightarrow> ('a word, 'v) Nonzero \<Rightarrow> bool)
                  \<Rightarrow> ('a word, 'v) Nonzero list \<Rightarrow> ('a word, 'v) Nonzero list"
    and srt32 :: "((32 word, 'v) Nonzero \<Rightarrow> (32 word, 'v) Nonzero \<Rightarrow> bool)
                  \<Rightarrow> (32 word, 'v) Nonzero list \<Rightarrow> (32 word, 'v) Nonzero list"
  assumes contract: "std_sort_contract srt" and contract32: "std_sort_contract srt32"
    and hdr: "read_header (open_stream contents) = Some (Inr (header, open_stream (unlines ls @ rest)))"
    and len: "length ls = unat (Header.num_nonzeros header)"
    and nl: "\<forall>l\<in>set ls. CHR 0x0A \<notin> set l"
    and sym: "symmetry header = SYMMETRIC"
    and ok: "read_csr pn srt (Some contents) = Some (Inr m)"
    and k: "k = length (filter (\<lambda>l. (row1 l :: 'a word) \<noteq> col1 l) ls)"
    and d: "d = length (filter (\<lambda>l. (row1 l :: 'a word) = col1 l) ls)"
  shows "read_coo pn contents =
           Some (Inr (header,
             concat (map (\<lambda>l. if (row1 l :: 'a word) \<noteq> col1 l
                                then [entry_of pn header l, transposed (entry_of pn header l)]
                                else [entry_of pn header l]) ls))) \<and>
         length (CSRMatrix.values m) = 2 * k + d \<and>
         length (col_indices m) = 2 * k + d \<and>
         CSRMatrix.num_nonzeros m = word_of_nat (2 * k + d) \<and>
         (2 * k + d < 2 ^ LENGTH('a) \<longrightarrow> unat (CSRMatrix.num_nonzeros m) = 2 * k + d) \<and>
         read_csr pn srt32 (Some scenario_symmetric) =
           Some (Inr \<lparr>CSRMatrix.num_rows = 3, CSRMatrix.num_cols = 3, CSRMatrix.num_nonzeros = 2,
                       row_offsets = [0, 1, 2, 2], col_indices = [1, 0],
                       CSRMatrix.values = [pn ''4.0'', pn ''4.0'']\<rparr>)"
proof -
  let ?coo = "read_coo pn contents :: (error + 'a word Header \<times> ('a word, 'v) Nonzero list) option"
  let ?es = "concat (map (appended pn header) ls)"
  have coo: "?coo =
           (case read_entries pn header ls of
              Inl e \<Rightarrow> Some (Inl e)
            | Inr es \<Rightarrow> Some (Inr (header, es)))"
    using hdr len nl by (rule read_coo_lines)
  from ok obtain es where "read_entries pn header ls = Inr es"
    by (cases "read_entries pn header ls") (auto simp: read_csr_coo coo)
  then have es: "read_entries pn header ls = Inr ?es"
    by (simp add: read_entries_Inr)
  then have c: "?coo = Some (Inr (header, ?es))"
    by (simp add: coo)
  have "appended pn header = (\<lambda>l. if (row1 l :: 'a word) \<noteq> col1 l
                                then [entry_of pn header l, transposed (entry_of pn header l)]
                                else [entry_of pn header l])"
    using sym by (auto simp: appended_def)
  with c have 1: "?coo =
           Some (Inr (header,
             concat (map (\<lambda>l. if (row1 l :: 'a word) \<noteq> col1 l
                                then [entry_of pn header l, transposed (entry_of pn header l)]
                                else [entry_of pn header l]) ls)))"
    by simp
  have n: "length ?es = 2 * k + d"
    unfolding k d using sym by (rule length_appended)
  from ok c have m: "m = compress_csr header (srt csr_less ?es)"
    by (simp add: read_csr_coo)
  have "mset (srt csr_less ?es) = mset ?es"
    using contract swo_csr_less unfolding std_sort_contract_def by blast
  then have l: "length (srt csr_less ?es) = 2 * k + d"
    using n by (metis mset_eq_length)
  have 2: "length (CSRMatrix.values m) = 2 * k + d" "length (col_indices m) = 2 * k + d"
    "CSRMatrix.num_nonzeros m = word_of_nat (2 * k + d)"
    by (simp_all add: m compress_csr_fields l)
  have 3: "2 * k + d < 2 ^ LENGTH('a) \<longrightarrow> unat (CSRMatrix.num_nonzeros m) = 2 * k + d"
    unfolding 2(3) by (simp only: unat_of_nat) simp
  let ?h = "\<lparr>symmetry = SYMMETRIC, value_type = REAL, Header.num_rows = 3 :: 32 word,
             Header.num_cols = 3, Header.num_nonzeros = 1\<rparr>"
  let ?s = "[\<lparr>row = 0 :: 32 word, col = 1, value = pn ''4.0''\<rparr>, \<lparr>row = 1, col = 0, value = pn ''4.0''\<rparr>]"
  have "read_coo pn scenario_symmetric = Some (Inr (?h, ?s))"
    by (simp add: scenario_symmetric_def read_coo_def eval_simps Let_def)
  moreover have "srt32 csr_less ?s = ?s"
    by (rule std_sort_sorted_input [OF contract32 swo_csr_less]) (simp add: csr_less_def)
  ultimately have 4: "read_csr pn srt32 (Some scenario_symmetric) =
           Some (Inr \<lparr>CSRMatrix.num_rows = 3, CSRMatrix.num_cols = 3, CSRMatrix.num_nonzeros = 2,
                       row_offsets = [0, 1, 2, 2], col_indices = [1, 0],
                       CSRMatrix.values = [pn ''4.0'', pn ''4.0'']\<rparr>)"
    by (simp add: read_csr_coo compress_csr_def offsets_while.simps)
  from 1 2 3 4 show ?thesis
    by blast
qed

theorem C2_symmetry_doubling_witness:
  "read_coo (parse_int :: string \<Rightarrow> 32 word) scenario_symmetric =
     Some (Inr (\<lparr>symmetry = SYMMETRIC, value_type = REAL, Header.num_rows = 3 :: 32 word,
                  Header.num_cols = 3, Header.num_nonzeros = 1\<rparr>,
                [\<lparr>row = 0, col = 1, value = 4\<rparr>, \<lparr>row = 1, col = 0, value = 4\<rparr>])) \<and>
   read_csr (parse_int :: string \<Rightarrow> 32 word) insertion_sort (Some scenario_symmetric) =
     Some (Inr \<lparr>CSRMatrix.num_rows = 3 :: 32 word, CSRMatrix.num_cols = 3, CSRMatrix.num_nonzeros = 2,
                 row_offsets = [0, 1, 2, 2], col_indices = [1, 0], CSRMatrix.values = [4, 4]\<rparr>)"
proof -
  let ?pn = "parse_int :: string \<Rightarrow> 32 word"
  let ?h = "\<lparr>symmetry = SYMMETRIC, value_type = REAL, Header.num_rows = 3 :: 32 word,
             Header.num_cols = 3, Header.num_nonzeros = 1\<rparr>"
  let ?ls = "[''1 2 4.0'']"
  let ?m = "\<lparr>CSRMatrix.num_rows = 3 :: 32 word, CSRMatrix.num_cols = 3, CSRMatrix.num_nonzeros = 2,
             row_offsets = [0, 1, 2, 2], col_indices = [1, 0], CSRMatrix.values = [4, 4 :: 32 word]\<rparr>"
  have h: "read_header (open_stream scenario_symmetric) = Some (Inr (?h, open_stream (unlines ?ls @ [])))"
    by (simp add: scenario_symmetric_def eval_simps)
  have len: "length ?ls = unat (Header.num_nonzeros ?h)"
    by simp
  have nl: "\<forall>l\<in>set ?ls. CHR 0x0A \<notin> set l"
    by simp
  have sym: "symmetry ?h = SYMMETRIC"
    by simp
  have ok: "read_csr ?pn insertion_sort (Some scenario_symmetric) = Some (Inr ?m)"
    by (simp add: scenario_symmetric_def compress_simps eval_simps Let_def)
  have t: "Tokens ''1 2 4.0'' CHR '' '' = [''1'', ''2'', ''4.0'']"
    by (simp add: eval_simps)
  have rc: "(row1 ''1 2 4.0'' :: 32 word) = 1" "(col1 ''1 2 4.0'' :: 32 word) = 2"
    by (simp_all add: row1_def col1_def t) (simp_all add: eval_simps)
  have k: "1 = length (filter (\<lambda>l. (row1 l :: 32 word) \<noteq> col1 l) ?ls)"
    and d: "0 = length (filter (\<lambda>l. (row1 l :: 32 word) = col1 l) ?ls)"
    by (simp_all add: rc)
  have e: "entry_of ?pn ?h ''1 2 4.0'' = \<lparr>row = 0, col = 1, value = 4\<rparr>"
    by (simp add: entry_of_def rc t) (simp add: eval_simps)
  from C2_symmetry_doubling [OF insertion_sort_contract insertion_sort_contract h len nl sym ok k d]
  show ?thesis
    using ok by (simp add: rc e transposed_def)
qed

text \<open>
  The count of C2 as the specification words it fails when the coordinate type cannot hold
  it: the symmetric file of 32768 lines \<open>1 2\<close>, read with a 16-bit coordinate type, has
  \<open>k = 32768\<close> and \<open>d = 0\<close>, stores 65536 indices, and reports \<open>num_nonzeros = 0\<close>.
\<close>

theorem C2_counterexample:
  "read_csr (parse_int :: string \<Rightarrow> 16 word) insertion_sort (Some overflow_file) =
     Some (Inr \<lparr>CSRMatrix.num_rows = 2 :: 16 word, CSRMatrix.num_cols = 2, CSRMatrix.num_nonzeros = 0,
                 row_offsets = [0, 32768, 0],
                 col_indices = replicate 32768 1 @ replicate 32768 0,
                 CSRMatrix.values = replicate 32768 1 @ replicate 32768 1\<rparr>) \<and>
   (row1 ''1 2'' :: 16 word) \<noteq> col1 ''1 2'' \<and>
   unat (0 :: 16 word) \<noteq> 2 * 32768 + 0"
proof -
  have "Tokens ''1 2'' CHR '' '' = [''1'', ''2'']"
    by (simp add: eval_simps)
  then have "(row1 ''1 2'' :: 16 word) = 1" "(col1 ''1 2'' :: 16 word) = 2"
    by (simp_all add: row1_def col1_def) (simp_all add: eval_simps)
  then have "(row1 ''1 2'' :: 16 word) \<noteq> col1 ''1 2''"
    by simp
  then show ?thesis
    using overflow_file_csr [OF insertion_sort_contract, of "parse_int :: string \<Rightarrow> 16 word"]
    by simp
qed

section \<open>Order of entries with equal keys\<close>









section \<open>The entries a compressed matrix represents\<close>

text \<open>
  The loop of \<open>demo.cpp\<close> over a CSR matrix: for every row \<open>i\<close> below \<open>num_rows\<close> and every
  position \<open>j\<close> from \<open>row_offsets[i]\<close> up to \<open>row_offsets[i+1]\<close>, the triple
  \<open>(i, col_indices[j], values[j])\<close>. \<open>csc_triples\<close> is the same walk over the columns of a
  CSC matrix, yielding \<open>(row_indices[j], i, values[j])\<close>.
\<close>

definition csr_triples :: "('a::len word, 'v) CSRMatrix \<Rightarrow> ('a word \<times> 'a word \<times> 'v) list" where
  "csr_triples m =
     concat (map (\<lambda>i. map (\<lambda>j. (word_of_nat i, col_indices m ! j, CSRMatrix.values m ! j))
                          [unat (row_offsets m ! i) ..< unat (row_offsets m ! Suc i)])
                 [0 ..< unat (CSRMatrix.num_rows m)])"

definition csc_triples :: "('a::len word, 'v) CSCMatrix \<Rightarrow> ('a word \<times> 'a word \<times> 'v) list" where
  "csc_triples m =
     concat (map (\<lambda>i. map (\<lambda>j. (row_indices m ! j, word_of_nat i, CSCMatrix.values m ! j))
                          [unat (col_offsets m ! i) ..< unat (col_offsets m ! Suc i)])
                 [0 ..< unat (CSCMatrix.num_cols m)])"

definition triple :: "('a, 'v) Nonzero \<Rightarrow> 'a \<times> 'a \<times> 'v" where
  "triple e = (row e, col e, value e)"

lemma map_nth_positions:
  assumes "hi \<le> length xs"
  shows "map (\<lambda>j. f (xs ! j)) [lo..<hi] = map f (positions lo hi xs)"
proof (rule map_upt_eqI)
  show "length (map f (positions lo hi xs)) = hi - lo"
    using assms by (simp add: positions_def)
  fix i
  assume "i < length (map f (positions lo hi xs))"
  then have "i < hi - lo"
    using assms by (simp add: positions_def)
  then show "map f (positions lo hi xs) ! i = f (xs ! (lo + i))"
    using assms by (simp add: positions_def)
qed

lemma filter_split:
  "(\<And>e. \<not> (P e \<and> Q e)) \<Longrightarrow>
   mset (filter P es) + mset (filter Q es) = mset (filter (\<lambda>e. P e \<or> Q e) es)"
  by (induction es) auto

lemma triples_by_major:
  fixes k :: "'e \<Rightarrow> nat"
  assumes rows: "\<And>r. r < n \<Longrightarrow> mset (g r) = mset (map t (filter (\<lambda>e. k e = r) es))"
    and bound: "\<forall>e\<in>set es. k e < n"
  shows "mset (concat (map g [0..<n])) = mset (map t es)"
proof -
  have "m \<le> n \<Longrightarrow> mset (concat (map g [0..<m])) = mset (map t (filter (\<lambda>e. k e < m) es))" for m
  proof (induction m)
    case 0
    then show ?case by simp
  next
    case (Suc m)
    have "mset (filter (\<lambda>e. k e < m) es) + mset (filter (\<lambda>e. k e = m) es) =
          mset (filter (\<lambda>e. k e < m \<or> k e = m) es)"
      by (rule filter_split) simp
    also have "(\<lambda>e. k e < m \<or> k e = m) = (\<lambda>e. k e < Suc m)"
      by auto
    finally have "image_mset t (mset (filter (\<lambda>e. k e < m) es) + mset (filter (\<lambda>e. k e = m) es)) =
        image_mset t (mset (filter (\<lambda>e. k e < Suc m) es))"
      by simp
    then show ?case
      using Suc rows [of m] by simp
  qed
  from this [of n] have "mset (concat (map g [0..<n])) = mset (map t (filter (\<lambda>e. k e < n) es))"
    by simp
  also have "filter (\<lambda>e. k e < n) es = es"
    using bound by (simp add: filter_id_conv)
  finally show ?thesis .
qed

text \<open>
  A matrix that satisfies the structural invariant over the accumulated entries, and
  whose \<open>num_nonzeros\<close> is the length of its index and value arrays, represents exactly
  those entries.
\<close>

lemma csr_triples_invariant:
  fixes m :: "('a::len word, 'v) CSRMatrix"
  assumes inv: "csr_invariant nonzeros m"
    and nnz: "unat (CSRMatrix.num_nonzeros m) = length (col_indices m)"
    and len: "length (CSRMatrix.values m) = length (col_indices m)"
    and bound: "\<forall>e\<in>set nonzeros. unat (row e) < unat (CSRMatrix.num_rows m)"
  shows "mset (csr_triples m) = mset (map triple nonzeros)"
  unfolding csr_triples_def
proof (rule triples_by_major [where k = "\<lambda>e. unat (row e)"])
  show "\<forall>e\<in>set nonzeros. unat (row e) < unat (CSRMatrix.num_rows m)"
    by (rule bound)
next
  fix r
  let ?n = "unat (CSRMatrix.num_rows m)"
  let ?lo = "unat (row_offsets m ! r)" and ?hi = "unat (row_offsets m ! Suc r)"
  let ?z = "zip (col_indices m) (CSRMatrix.values m)"
  assume r: "r < ?n"
  have l: "length (row_offsets m) = ?n + 1" and s: "sorted (map unat (row_offsets m))"
    and e: "last (row_offsets m) = CSRMatrix.num_nonzeros m"
    and p: "mset (positions ?lo ?hi ?z) =
            mset (map (\<lambda>e. (col e, value e)) (filter (\<lambda>e. unat (row e) = r) nonzeros))"
    using inv r unfolding csr_invariant_def by auto
  have "last (row_offsets m) = row_offsets m ! ?n"
    using l by (metis add_diff_cancel_right' last_conv_nth length_0_conv Suc_eq_plus1 nat.distinct(1))
  moreover have "map unat (row_offsets m) ! Suc r \<le> map unat (row_offsets m) ! ?n"
    using s r l by (intro sorted_nth_mono) simp_all
  ultimately have hi: "?hi \<le> length ?z"
    using e nnz len r l by simp
  have "map (\<lambda>j. (word_of_nat r :: 'a word, col_indices m ! j, CSRMatrix.values m ! j)) [?lo..<?hi] =
        map (\<lambda>j. (\<lambda>(c, v). (word_of_nat r :: 'a word, c, v)) (?z ! j)) [?lo..<?hi]"
    using hi by (intro map_cong) simp_all
  also have "\<dots> = map (\<lambda>(c, v). (word_of_nat r :: 'a word, c, v)) (positions ?lo ?hi ?z)"
    using hi by (rule map_nth_positions)
  finally have "mset (map (\<lambda>j. (word_of_nat r :: 'a word, col_indices m ! j, CSRMatrix.values m ! j)) [?lo..<?hi]) =
        image_mset (\<lambda>(c, v). (word_of_nat r :: 'a word, c, v)) (mset (positions ?lo ?hi ?z))"
    by simp
  also have "\<dots> = mset (map (\<lambda>e. (word_of_nat r :: 'a word, col e, value e))
                             (filter (\<lambda>e. unat (row e) = r) nonzeros))"
    unfolding p by (simp add: multiset.map_comp comp_def)
  also have "map (\<lambda>e. (word_of_nat r :: 'a word, col e, value e)) (filter (\<lambda>e. unat (row e) = r) nonzeros) =
             map triple (filter (\<lambda>e. unat (row e) = r) nonzeros)"
    by (rule map_cong) (auto simp: triple_def)
  finally show "mset (map (\<lambda>j. (word_of_nat r :: 'a word, col_indices m ! j, CSRMatrix.values m ! j)) [?lo..<?hi]) =
        mset (map triple (filter (\<lambda>e. unat (row e) = r) nonzeros))" .
qed

lemma csc_triples_invariant:
  fixes m :: "('a::len word, 'v) CSCMatrix"
  assumes inv: "csc_invariant nonzeros m"
    and nnz: "unat (CSCMatrix.num_nonzeros m) = length (row_indices m)"
    and len: "length (CSCMatrix.values m) = length (row_indices m)"
    and bound: "\<forall>e\<in>set nonzeros. unat (col e) < unat (CSCMatrix.num_cols m)"
  shows "mset (csc_triples m) = mset (map triple nonzeros)"
  unfolding csc_triples_def
proof (rule triples_by_major [where k = "\<lambda>e. unat (col e)"])
  show "\<forall>e\<in>set nonzeros. unat (col e) < unat (CSCMatrix.num_cols m)"
    by (rule bound)
next
  fix r
  let ?n = "unat (CSCMatrix.num_cols m)"
  let ?lo = "unat (col_offsets m ! r)" and ?hi = "unat (col_offsets m ! Suc r)"
  let ?z = "zip (row_indices m) (CSCMatrix.values m)"
  assume r: "r < ?n"
  have l: "length (col_offsets m) = ?n + 1" and s: "sorted (map unat (col_offsets m))"
    and e: "last (col_offsets m) = CSCMatrix.num_nonzeros m"
    and p: "mset (positions ?lo ?hi ?z) =
            mset (map (\<lambda>e. (row e, value e)) (filter (\<lambda>e. unat (col e) = r) nonzeros))"
    using inv r unfolding csc_invariant_def by auto
  have "last (col_offsets m) = col_offsets m ! ?n"
    using l by (metis add_diff_cancel_right' last_conv_nth length_0_conv Suc_eq_plus1 nat.distinct(1))
  moreover have "map unat (col_offsets m) ! Suc r \<le> map unat (col_offsets m) ! ?n"
    using s r l by (intro sorted_nth_mono) simp_all
  ultimately have hi: "?hi \<le> length ?z"
    using e nnz len r l by simp
  have "map (\<lambda>j. (row_indices m ! j, word_of_nat r :: 'a word, CSCMatrix.values m ! j)) [?lo..<?hi] =
        map (\<lambda>j. (\<lambda>(c, v). (c, word_of_nat r :: 'a word, v)) (?z ! j)) [?lo..<?hi]"
    using hi by (intro map_cong) simp_all
  also have "\<dots> = map (\<lambda>(c, v). (c, word_of_nat r :: 'a word, v)) (positions ?lo ?hi ?z)"
    using hi by (rule map_nth_positions)
  finally have "mset (map (\<lambda>j. (row_indices m ! j, word_of_nat r :: 'a word, CSCMatrix.values m ! j)) [?lo..<?hi]) =
        image_mset (\<lambda>(c, v). (c, word_of_nat r :: 'a word, v)) (mset (positions ?lo ?hi ?z))"
    by simp
  also have "\<dots> = mset (map (\<lambda>e. (row e, word_of_nat r :: 'a word, value e))
                             (filter (\<lambda>e. unat (col e) = r) nonzeros))"
    unfolding p by (simp add: multiset.map_comp comp_def)
  also have "map (\<lambda>e. (row e, word_of_nat r :: 'a word, value e)) (filter (\<lambda>e. unat (col e) = r) nonzeros) =
             map triple (filter (\<lambda>e. unat (col e) = r) nonzeros)"
    by (rule map_cong) (auto simp: triple_def)
  finally show "mset (map (\<lambda>j. (row_indices m ! j, word_of_nat r :: 'a word, CSCMatrix.values m ! j)) [?lo..<?hi]) =
        mset (map triple (filter (\<lambda>e. unat (col e) = r) nonzeros))" .
qed

lemma read_coo_bounds:
  fixes header :: "'a::len word Header"
  assumes coo: "read_coo pn contents = Some (Inr (header, nonzeros))"
    and square: "symmetry header = GENERAL \<or> Header.num_rows header = Header.num_cols header"
  shows "\<forall>e\<in>set nonzeros. unat (row e) < unat (Header.num_rows header)"
    and "\<forall>e\<in>set nonzeros. unat (col e) < unat (Header.num_cols header)"
proof -
  show "\<forall>e\<in>set nonzeros. unat (row e) < unat (Header.num_rows header)"
    using coo
  proof (rule read_coo_invariant)
    fix l pushed
    assume "read_entry pn header l = Inr pushed"
    then show "\<forall>e\<in>set pushed. unat (row e) < unat (Header.num_rows header)"
      using square by (intro read_entry_row_bound) auto
  qed
  show "\<forall>e\<in>set nonzeros. unat (col e) < unat (Header.num_cols header)"
    using coo
  proof (rule read_coo_invariant)
    fix l pushed
    assume "read_entry pn header l = Inr pushed"
    then show "\<forall>e\<in>set pushed. unat (col e) < unat (Header.num_cols header)"
      using square by (intro read_entry_col_bound) auto
  qed
qed

lemma read_csr_csc_failure:
  fixes srt :: "(('a::len word, 'v::one) Nonzero \<Rightarrow> ('a word, 'v) Nonzero \<Rightarrow> bool)
                  \<Rightarrow> ('a word, 'v) Nonzero list \<Rightarrow> ('a word, 'v) Nonzero list"
  shows "read_csr pn srt file = None \<longleftrightarrow> read_csc pn srt file = None"
    and "read_csr pn srt file = Some (Inl e) \<longleftrightarrow> read_csc pn srt file = Some (Inl e)"
proof -
  show "read_csr pn srt file = None \<longleftrightarrow> read_csc pn srt file = None"
  proof (cases "file")
    case None
    then show ?thesis by (simp add: read_csr_def read_csc_def)
  next
    case (Some contents)
    show ?thesis
      unfolding Some read_csr_coo read_csc_coo
      by (simp split: option.splits sum.splits prod.splits)
  qed
  show "read_csr pn srt file = Some (Inl e) \<longleftrightarrow> read_csc pn srt file = Some (Inl e)"
  proof (cases "file")
    case None
    then show ?thesis by (simp add: read_csr_def read_csc_def)
  next
    case (Some contents)
    show ?thesis
      unfolding Some read_csr_coo read_csc_coo
      by (simp split: option.splits sum.splits prod.splits)
  qed
qed

lemma compressed_triples:
  fixes pn :: "string \<Rightarrow> 'v::one" and header :: "'a::len word Header"
    and srt :: "(('a word, 'v) Nonzero \<Rightarrow> ('a word, 'v) Nonzero \<Rightarrow> bool)
                  \<Rightarrow> ('a word, 'v) Nonzero list \<Rightarrow> ('a word, 'v) Nonzero list"
  assumes contract: "std_sort_contract srt"
    and coo: "read_coo pn contents = Some (Inr (header, nonzeros))"
    and square: "symmetry header = GENERAL \<or> Header.num_rows header = Header.num_cols header"
    and fits: "length nonzeros < 2 ^ LENGTH('a)"
  shows "mset (csr_triples (compress_csr header (srt csr_less nonzeros))) = mset (map triple nonzeros)"
    and "mset (csc_triples (compress_csc header (srt csc_less nonzeros))) = mset (map triple nonzeros)"
proof -
  note b = read_coo_bounds [OF coo square]
  have r: "mset (srt csr_less nonzeros) = mset nonzeros"
    "sorted_wrt (\<lambda>a b. \<not> csr_less b a) (srt csr_less nonzeros)"
    using contract swo_csr_less unfolding std_sort_contract_def by blast+
  have c: "mset (srt csc_less nonzeros) = mset nonzeros"
    "sorted_wrt (\<lambda>a b. \<not> csc_less b a) (srt csc_less nonzeros)"
    using contract swo_csc_less unfolding std_sort_contract_def by blast+
  have lr: "length (srt csr_less nonzeros) = length nonzeros"
    using r(1) by (rule mset_eq_length)
  have lc: "length (srt csc_less nonzeros) = length nonzeros"
    using c(1) by (rule mset_eq_length)
  have n: "unat (word_of_nat (length nonzeros) :: 'a word) = length nonzeros"
    using fits by (simp add: unat_of_nat)
  have "csr_invariant nonzeros (compress_csr header (srt csr_less nonzeros))"
    using r b(1) fits by (rule csr_invariant_sorted)
  then show "mset (csr_triples (compress_csr header (srt csr_less nonzeros))) = mset (map triple nonzeros)"
    by (rule csr_triples_invariant) (simp_all add: compress_csr_fields lr n b)
  have "csc_invariant nonzeros (compress_csc header (srt csc_less nonzeros))"
    using c b(2) fits by (rule csc_invariant_sorted)
  then show "mset (csc_triples (compress_csc header (srt csc_less nonzeros))) = mset (map triple nonzeros)"
    by (rule csc_triples_invariant) (simp_all add: compress_csc_fields lc n b)
qed

text \<open>
  C9, as the code has it. \<open>read_csr\<close> and \<open>read_csc\<close> fail on the same files with the same
  error, and neither returns on the files on which the other does not. When both succeed
  they return the same \<open>num_rows\<close>, \<open>num_cols\<close> and \<open>num_nonzeros\<close>. When moreover the
  header is general or declares a square matrix and the number of accumulated entries
  fits the coordinate type, both outputs represent the multiset of the accumulated
  (row, column, value) triples.
\<close>

theorem C9_csr_csc_agree:
  fixes pn :: "string \<Rightarrow> 'v::one"
    and srt :: "(('a::len word, 'v) Nonzero \<Rightarrow> ('a word, 'v) Nonzero \<Rightarrow> bool)
                  \<Rightarrow> ('a word, 'v) Nonzero list \<Rightarrow> ('a word, 'v) Nonzero list"
  assumes contract: "std_sort_contract srt"
  shows "(read_csr pn srt file = None \<longleftrightarrow> read_csc pn srt file = None) \<and>
         (\<forall>e. read_csr pn srt file = Some (Inl e) \<longleftrightarrow> read_csc pn srt file = Some (Inl e)) \<and>
         (\<forall>mr mc. read_csr pn srt file = Some (Inr mr) \<and> read_csc pn srt file = Some (Inr mc) \<longrightarrow>
            CSRMatrix.num_rows mr = CSCMatrix.num_rows mc \<and>
            CSRMatrix.num_cols mr = CSCMatrix.num_cols mc \<and>
            CSRMatrix.num_nonzeros mr = CSCMatrix.num_nonzeros mc \<and>
            (\<forall>contents (header :: 'a word Header) nonzeros.
               file = Some contents \<and>
               read_coo pn contents = Some (Inr (header, nonzeros)) \<and>
               (symmetry header = GENERAL \<or> Header.num_rows header = Header.num_cols header) \<and>
               length nonzeros < 2 ^ LENGTH('a) \<longrightarrow>
               mset (csr_triples mr) = mset (map triple nonzeros) \<and>
               mset (csc_triples mc) = mset (map triple nonzeros) \<and>
               mset (csr_triples mr) = mset (csc_triples mc)))"
proof (intro conjI allI impI)
  show "read_csr pn srt file = None \<longleftrightarrow> read_csc pn srt file = None"
    by (rule read_csr_csc_failure)
next
  fix e
  show "read_csr pn srt file = Some (Inl e) \<longleftrightarrow> read_csc pn srt file = Some (Inl e)"
    by (rule read_csr_csc_failure)
next
  fix mr mc
  assume ok: "read_csr pn srt file = Some (Inr mr) \<and> read_csc pn srt file = Some (Inr mc)"
  then obtain contents where f: "file = Some contents"
    by (cases "file") (auto simp: read_csr_def)
  from ok obtain header nonzeros where coo: "read_coo pn contents = Some (Inr (header, nonzeros))"
    and mr: "mr = compress_csr header (srt csr_less nonzeros)"
    and mc: "mc = compress_csc header (srt csc_less nonzeros)"
    unfolding f by (auto simp: read_csr_coo read_csc_coo split: option.splits sum.splits)
  have "mset (srt csr_less nonzeros) = mset nonzeros" "mset (srt csc_less nonzeros) = mset nonzeros"
    using contract swo_csr_less swo_csc_less unfolding std_sort_contract_def by blast+
  then have l: "length (srt csr_less nonzeros) = length (srt csc_less nonzeros)"
    by (metis mset_eq_length)
  show "CSRMatrix.num_rows mr = CSCMatrix.num_rows mc"
    "CSRMatrix.num_cols mr = CSCMatrix.num_cols mc"
    "CSRMatrix.num_nonzeros mr = CSCMatrix.num_nonzeros mc"
    by (simp_all add: mr mc compress_csr_fields compress_csc_fields l)
  fix contents' and header' :: "'a word Header" and nonzeros'
  assume a: "file = Some contents' \<and>
               read_coo pn contents' = Some (Inr (header', nonzeros')) \<and>
               (symmetry header' = GENERAL \<or> Header.num_rows header' = Header.num_cols header') \<and>
               length nonzeros' < 2 ^ LENGTH('a)"
  with f coo have eq: "header' = header" "nonzeros' = nonzeros"
    by simp_all
  from a have square: "symmetry header = GENERAL \<or> Header.num_rows header = Header.num_cols header"
    and fits: "length nonzeros < 2 ^ LENGTH('a)"
    unfolding eq by blast+
  note t = compressed_triples [OF contract coo square fits]
  show "mset (csr_triples mr) = mset (map triple nonzeros')"
    "mset (csc_triples mc) = mset (map triple nonzeros')"
    "mset (csr_triples mr) = mset (csc_triples mc)"
    by (simp_all add: mr mc t eq)
qed

theorem C9_csr_csc_agree_witness:
  "read_csr (parse_int :: string \<Rightarrow> 32 word) insertion_sort (Some scenario_symmetric) =
     Some (Inr \<lparr>CSRMatrix.num_rows = 3 :: 32 word, CSRMatrix.num_cols = 3, CSRMatrix.num_nonzeros = 2,
                 row_offsets = [0, 1, 2, 2], col_indices = [1, 0], CSRMatrix.values = [4, 4]\<rparr>) \<and>
   read_csc (parse_int :: string \<Rightarrow> 32 word) insertion_sort (Some scenario_symmetric) =
     Some (Inr \<lparr>CSCMatrix.num_rows = 3 :: 32 word, CSCMatrix.num_cols = 3, CSCMatrix.num_nonzeros = 2,
                 col_offsets = [0, 1, 2, 2], row_indices = [1, 0], CSCMatrix.values = [4, 4]\<rparr>) \<and>
   mset (csr_triples \<lparr>CSRMatrix.num_rows = 3 :: 32 word, CSRMatrix.num_cols = 3, CSRMatrix.num_nonzeros = 2,
                 row_offsets = [0, 1, 2, 2], col_indices = [1, 0], CSRMatrix.values = [4, 4 :: 32 word]\<rparr>) =
   mset (csc_triples \<lparr>CSCMatrix.num_rows = 3 :: 32 word, CSCMatrix.num_cols = 3, CSCMatrix.num_nonzeros = 2,
                 col_offsets = [0, 1, 2, 2], row_indices = [1, 0], CSCMatrix.values = [4, 4 :: 32 word]\<rparr>)"
proof -
  let ?pn = "parse_int :: string \<Rightarrow> 32 word"
  let ?h = "\<lparr>symmetry = SYMMETRIC, value_type = REAL, Header.num_rows = 3 :: 32 word,
             Header.num_cols = 3, Header.num_nonzeros = 1\<rparr>"
  let ?nz = "[\<lparr>row = 0 :: 32 word, col = 1, value = 4 :: 32 word\<rparr>, \<lparr>row = 1, col = 0, value = 4\<rparr>]"
  let ?mr = "\<lparr>CSRMatrix.num_rows = 3 :: 32 word, CSRMatrix.num_cols = 3, CSRMatrix.num_nonzeros = 2,
                 row_offsets = [0, 1, 2, 2], col_indices = [1, 0], CSRMatrix.values = [4, 4 :: 32 word]\<rparr>"
  let ?mc = "\<lparr>CSCMatrix.num_rows = 3 :: 32 word, CSCMatrix.num_cols = 3, CSCMatrix.num_nonzeros = 2,
                 col_offsets = [0, 1, 2, 2], row_indices = [1, 0], CSCMatrix.values = [4, 4 :: 32 word]\<rparr>"
  have coo: "read_coo ?pn scenario_symmetric = Some (Inr (?h, ?nz))"
    by (simp add: scenario_symmetric_def read_coo_def eval_simps Let_def)
  have r: "read_csr ?pn insertion_sort (Some scenario_symmetric) = Some (Inr ?mr)"
    by (simp add: read_csr_coo coo compress_csr_def insertion_sort_def csr_less_def offsets_while.simps)
  have c: "read_csc ?pn insertion_sort (Some scenario_symmetric) = Some (Inr ?mc)"
    by (simp add: read_csc_coo coo compress_csc_def insertion_sort_def csc_less_def offsets_while.simps)
  have sq: "symmetry ?h = GENERAL \<or> Header.num_rows ?h = Header.num_cols ?h"
    by simp
  have fits: "length ?nz < 2 ^ LENGTH(32)"
    by simp
  from C9_csr_csc_agree [OF insertion_sort_contract, of ?pn "Some scenario_symmetric"] r c coo sq fits
  have "mset (csr_triples ?mr) = mset (csc_triples ?mc)"
    by blast
  with r c show ?thesis
    by blast
qed

lemma overflow_triples:
  fixes a b :: "16 word"
  assumes "n < 2 ^ 16"
  shows "csr_triples \<lparr>CSRMatrix.num_rows = 2 :: 16 word, CSRMatrix.num_cols = nc, CSRMatrix.num_nonzeros = z,
                      row_offsets = [0, word_of_nat n, 0],
                      col_indices = replicate n a @ replicate n b,
                      CSRMatrix.values = replicate n v @ replicate n w\<rparr> = replicate n (0, a, v)"
    and "csc_triples \<lparr>CSCMatrix.num_rows = nr, CSCMatrix.num_cols = 2 :: 16 word, CSCMatrix.num_nonzeros = z,
                      col_offsets = [0, word_of_nat n, 0],
                      row_indices = replicate n a @ replicate n b,
                      CSCMatrix.values = replicate n v @ replicate n w\<rparr> = replicate n (a, 0, v)"
proof -
  have u: "unat (word_of_nat n :: 16 word) = n"
    using assms by (simp add: unat_of_nat)
  have "map (\<lambda>j. (x, (replicate n a @ replicate n b) ! j, (replicate n v @ replicate n w) ! j)) [0..<n] =
        replicate n (x, a, v)" for x :: "16 word"
    by (rule map_upt_eqI) (simp_all add: nth_append)
  moreover have "map (\<lambda>j. ((replicate n a @ replicate n b) ! j, x, (replicate n v @ replicate n w) ! j)) [0..<n] =
        replicate n (a, x, v)" for x :: "16 word"
    by (rule map_upt_eqI) (simp_all add: nth_append)
  moreover have "[0..<unat (2 :: 16 word)] = [0, 1]"
    by (simp add: upt_rec)
  ultimately show "csr_triples \<lparr>CSRMatrix.num_rows = 2 :: 16 word, CSRMatrix.num_cols = nc, CSRMatrix.num_nonzeros = z,
                      row_offsets = [0, word_of_nat n, 0],
                      col_indices = replicate n a @ replicate n b,
                      CSRMatrix.values = replicate n v @ replicate n w\<rparr> = replicate n (0, a, v)"
    and "csc_triples \<lparr>CSCMatrix.num_rows = nr, CSCMatrix.num_cols = 2 :: 16 word, CSCMatrix.num_nonzeros = z,
                      col_offsets = [0, word_of_nat n, 0],
                      row_indices = replicate n a @ replicate n b,
                      CSCMatrix.values = replicate n v @ replicate n w\<rparr> = replicate n (a, 0, v)"
    by (simp_all add: csr_triples_def csc_triples_def u)
qed

text \<open>
  The claim C9 as the specification words it fails on two files that both entry points
  decode. Of the symmetric file that is not square, the CSR output represents one entry
  and the CSC output two. Of the file of 65536 entries read with a 16-bit coordinate type,
  the CSR output represents 32768 times the entry (0, 1) and the CSC output 32768 times
  the entry (1, 0).
\<close>

theorem C9_counterexample:
  "read_csr (parse_int :: string \<Rightarrow> 32 word) insertion_sort (Some nonsquare_symmetric) =
     Some (Inr \<lparr>CSRMatrix.num_rows = 2 :: 32 word, CSRMatrix.num_cols = 3, CSRMatrix.num_nonzeros = 2,
                 row_offsets = [0, 1, 1], col_indices = [2, 0], CSRMatrix.values = [7, 7]\<rparr>) \<and>
   read_csc (parse_int :: string \<Rightarrow> 32 word) insertion_sort (Some nonsquare_symmetric) =
     Some (Inr \<lparr>CSCMatrix.num_rows = 2 :: 32 word, CSCMatrix.num_cols = 3, CSCMatrix.num_nonzeros = 2,
                 col_offsets = [0, 1, 1, 2], row_indices = [2, 0], CSCMatrix.values = [7, 7]\<rparr>) \<and>
   csr_triples \<lparr>CSRMatrix.num_rows = 2 :: 32 word, CSRMatrix.num_cols = 3, CSRMatrix.num_nonzeros = 2,
                row_offsets = [0, 1, 1], col_indices = [2, 0], CSRMatrix.values = [7, 7 :: 32 word]\<rparr> =
     [(0, 2, 7)] \<and>
   csc_triples \<lparr>CSCMatrix.num_rows = 2 :: 32 word, CSCMatrix.num_cols = 3, CSCMatrix.num_nonzeros = 2,
                col_offsets = [0, 1, 1, 2], row_indices = [2, 0], CSCMatrix.values = [7, 7 :: 32 word]\<rparr> =
     [(2, 0, 7), (0, 2, 7)] \<and>
   read_csr (parse_int :: string \<Rightarrow> 16 word) insertion_sort (Some overflow_file) =
     Some (Inr \<lparr>CSRMatrix.num_rows = 2 :: 16 word, CSRMatrix.num_cols = 2, CSRMatrix.num_nonzeros = 0,
                 row_offsets = [0, 32768, 0],
                 col_indices = replicate 32768 1 @ replicate 32768 0,
                 CSRMatrix.values = replicate 32768 1 @ replicate 32768 1\<rparr>) \<and>
   read_csc (parse_int :: string \<Rightarrow> 16 word) insertion_sort (Some overflow_file) =
     Some (Inr \<lparr>CSCMatrix.num_rows = 2 :: 16 word, CSCMatrix.num_cols = 2, CSCMatrix.num_nonzeros = 0,
                 col_offsets = [0, 32768, 0],
                 row_indices = replicate 32768 1 @ replicate 32768 0,
                 CSCMatrix.values = replicate 32768 1 @ replicate 32768 1\<rparr>) \<and>
   csr_triples \<lparr>CSRMatrix.num_rows = 2 :: 16 word, CSRMatrix.num_cols = 2, CSRMatrix.num_nonzeros = 0,
                row_offsets = [0, 32768, 0],
                col_indices = replicate 32768 1 @ replicate 32768 0,
                CSRMatrix.values = replicate 32768 1 @ replicate 32768 (1 :: 16 word)\<rparr> =
     replicate 32768 (0, 1, 1) \<and>
   csc_triples \<lparr>CSCMatrix.num_rows = 2 :: 16 word, CSCMatrix.num_cols = 2, CSCMatrix.num_nonzeros = 0,
                col_offsets = [0, 32768, 0],
                row_indices = replicate 32768 1 @ replicate 32768 0,
                CSCMatrix.values = replicate 32768 1 @ replicate 32768 (1 :: 16 word)\<rparr> =
     replicate 32768 (1, 0, 1)"
proof -
  have a: "csr_triples \<lparr>CSRMatrix.num_rows = 2 :: 32 word, CSRMatrix.num_cols = 3, CSRMatrix.num_nonzeros = 2,
                row_offsets = [0, 1, 1], col_indices = [2, 0], CSRMatrix.values = [7, 7 :: 32 word]\<rparr> =
     [(0, 2, 7)]"
    by (simp add: csr_triples_def upt_rec)
  have b: "csc_triples \<lparr>CSCMatrix.num_rows = 2 :: 32 word, CSCMatrix.num_cols = 3, CSCMatrix.num_nonzeros = 2,
                col_offsets = [0, 1, 1, 2], row_indices = [2, 0], CSCMatrix.values = [7, 7 :: 32 word]\<rparr> =
     [(2, 0, 7), (0, 2, 7)]"
    by (simp add: csc_triples_def upt_rec)
  define n :: nat where "n = 32768"
  have n: "n < 2 ^ 16" "(word_of_nat n :: 16 word) = 32768"
    by (simp_all add: n_def)
  note t = overflow_triples [OF n(1), unfolded n(2), folded n_def [symmetric], unfolded n_def]
  note r = overflow_file_csr [OF insertion_sort_contract, of "parse_int :: string \<Rightarrow> 16 word"]
    and c = overflow_file_csc [OF insertion_sort_contract, of "parse_int :: string \<Rightarrow> 16 word"]
  show ?thesis
    by (intro conjI) (rule nonsquare_symmetric_csr nonsquare_symmetric_csc a b r c t)+
qed

section \<open>Content after the data lines\<close>

lemma read_header_first_line:
  assumes bad: "\<not> format_line_ok (takeWhile (\<lambda>c. c \<noteq> CHR 0x0A) contents)"
    and same: "takeWhile (\<lambda>c. c \<noteq> CHR 0x0A) contents' = takeWhile (\<lambda>c. c \<noteq> CHR 0x0A) contents"
  shows "(read_header (open_stream contents') :: (error + 'a::len word Header \<times> istream) option) =
         read_header (open_stream contents)"
proof -
  let ?l = "takeWhile (\<lambda>c. c \<noteq> CHR 0x0A) contents"
  let ?ts = "Tokens ?l CHR '' ''"
  have s: "snd (getline (open_stream contents) [] CHR 0x0A) = ?l"
    "snd (getline (open_stream contents') [] CHR 0x0A) = ?l"
    by (simp_all add: first_line same)
  show ?thesis
  proof (cases "length ?ts = 5")
    case False
    then show ?thesis
      by (simp add: read_header_def split_def Let_def s)
  next
    case True
    then obtain t0 t1 t2 t3 t4 where ts: "?ts = [t0, t1, t2, t3, t4]"
      by (rule list5)
    with bad have "t0 \<noteq> ''%%MatrixMarket'' \<or> t1 \<noteq> ''matrix'' \<or> t2 \<noteq> ''coordinate'' \<or>
        t3 \<notin> {''real'', ''integer'', ''pattern''} \<or> t4 \<notin> {''general'', ''symmetric''}"
      by (auto simp: format_line_ok_def Let_def)
    then show ?thesis
      by (auto simp: read_header_def split_def Let_def s ts pop_def parse_value_fmt_def parse_symmetry_def)
  qed
qed

lemma read_header_lines:
  fixes fmt dim :: string
  assumes nl: "\<forall>l\<in>set (fmt # comments @ [dim]). CHR 0x0A \<notin> set l"
    and comments: "\<forall>l\<in>set comments. front_char l = CHR ''%''"
    and dim: "front_char dim \<noteq> CHR ''%''"
  shows "\<exists>h :: (error + 'a::len word Header) option. \<forall>t.
           (read_header (open_stream (unlines (fmt # comments @ [dim]) @ t))
              :: (error + 'a word Header \<times> istream) option) =
           (case h of
              None \<Rightarrow> None
            | Some (Inl e) \<Rightarrow> Some (Inl e)
            | Some (Inr header) \<Rightarrow> Some (Inr (header, open_stream t))) \<and>
           (\<forall>header. h = Some (Inr header) \<longrightarrow>
              length (Tokens dim CHR '' '') = 3 \<and>
              Header.num_nonzeros header = parse_int (Tokens dim CHR '' '' ! 2))"
proof (cases "format_line_ok fmt")
  case False
  let ?c = "\<lambda>t. unlines (fmt # comments @ [dim]) @ t"
  have tw: "takeWhile (\<lambda>c. c \<noteq> CHR 0x0A) (?c t) = fmt" for t
  proof -
    from nl have "CHR 0x0A \<notin> set fmt"
      by simp
    then have "getline (open_stream (?c t)) [] CHR 0x0A = (open_stream (unlines (comments @ [dim]) @ t), fmt)"
      by (rule getline_unlines)
    then show ?thesis
      by (metis first_line snd_conv)
  qed
  have "\<not> format_line_ok (takeWhile (\<lambda>c. c \<noteq> CHR 0x0A) (?c []))"
    unfolding tw by (rule False)
  from read_header_bad_format [OF this] obtain msg
    where e: "(read_header (open_stream (?c [])) :: (error + 'a word Header \<times> istream) option) =
                Some (Inl (FormatError msg))"
    by blast
  have "(read_header (open_stream (?c t)) :: (error + 'a word Header \<times> istream) option) =
          Some (Inl (FormatError msg))" for t
  proof -
    have "(read_header (open_stream (?c t)) :: (error + 'a word Header \<times> istream) option) =
            read_header (open_stream (?c []))"
      by (rule read_header_first_line) (unfold tw, rule False, rule refl)
    then show ?thesis
      by (simp only: e)
  qed
  then show ?thesis
    by (intro exI [of _ "Some (Inl (FormatError msg))"]) simp
next
  case True
  from nl have "CHR 0x0A \<notin> set fmt"
    by simp
  from read_header_layout [OF True this, where 'a = 'a] obtain vf sy
    where h: "\<And>ls r. (read_header (open_stream (unlines (fmt # ls) @ r))
                      :: (error + 'a word Header \<times> istream) option) =
              (case skip_comments (open_stream (unlines ls @ r)) fmt of
                 None \<Rightarrow> None
               | Some (f, line) \<Rightarrow> size_line sy vf f line)"
    by blast
  have sk: "skip_comments (open_stream (unlines (comments @ [dim]) @ t)) fmt = Some (open_stream t, dim)" for t
    using nl comments dim by (intro skip_comments_unlines) simp_all
  have r: "(read_header (open_stream (unlines (fmt # comments @ [dim]) @ t))
              :: (error + 'a word Header \<times> istream) option) = size_line sy vf (open_stream t) dim" for t
    by (simp add: h sk)
  show ?thesis
  proof (cases "length (Tokens dim CHR '' '') = 3")
    case False
    then show ?thesis
      by (intro exI [of _ "Some (Inl (FormatError ''Bad Header: missing matrix size''))"])
         (simp add: r size_line_def)
  next
    case True
    then show ?thesis
      by (intro exI [of _ "Some (Inr \<lparr>symmetry = sy, value_type = vf,
                        Header.num_rows = parse_int (Tokens dim CHR '' '' ! 0),
                        Header.num_cols = parse_int (Tokens dim CHR '' '' ! 1),
                        Header.num_nonzeros = parse_int (Tokens dim CHR '' '' ! 2)\<rparr>)"])
         (simp add: r size_line_def)
  qed
qed

text \<open>
  C10. A file is laid out as a format line, comment lines (each starting with \<open>%\<close>), a
  dimension line (not starting with \<open>%\<close>), as many data lines as the dimension line
  declares, each line ended by a newline, and then any content \<open>rest\<close>. The results of
  \<open>read_csr\<close> and of \<open>read_csc\<close> are the same for every \<open>rest\<close>. When the header is
  accepted, the stream stands at the first data line; when the data lines are accepted,
  it stands at the start of \<open>rest\<close>, of which nothing has been read.
\<close>

theorem C10_trailing_content:
  fixes pn :: "string \<Rightarrow> 'v::one"
    and srt :: "(('a::len word, 'v) Nonzero \<Rightarrow> ('a word, 'v) Nonzero \<Rightarrow> bool)
                  \<Rightarrow> ('a word, 'v) Nonzero list \<Rightarrow> ('a word, 'v) Nonzero list"
  assumes nl: "\<forall>l\<in>set (fmt # comments @ dim # data). CHR 0x0A \<notin> set l"
    and comments: "\<forall>l\<in>set comments. front_char l = CHR ''%''"
    and dim: "front_char dim \<noteq> CHR ''%''"
    and count: "length (Tokens dim CHR '' '') = 3 \<longrightarrow>
                length data = unat (parse_int (Tokens dim CHR '' '' ! 2) :: 'a word)"
  shows "read_csr pn srt (Some (unlines (fmt # comments @ dim # data) @ rest)) =
           read_csr pn srt (Some (unlines (fmt # comments @ dim # data) @ rest')) \<and>
         read_csc pn srt (Some (unlines (fmt # comments @ dim # data) @ rest)) =
           read_csc pn srt (Some (unlines (fmt # comments @ dim # data) @ rest')) \<and>
         (\<forall>(header :: 'a word Header) f.
            read_header (open_stream (unlines (fmt # comments @ dim # data) @ rest)) = Some (Inr (header, f)) \<longrightarrow>
            f = open_stream (unlines data @ rest) \<and>
            (\<forall>nonzeros f'. read_nonzeros pn header 0 f [] = Inr (nonzeros, f') \<longrightarrow> f' = open_stream rest))"
proof -
  let ?c = "\<lambda>t. unlines (fmt # comments @ dim # data) @ t"
  have split: "?c t = unlines (fmt # comments @ [dim]) @ (unlines data @ t)" for t
    by (simp add: unlines_def)
  have nl': "\<forall>l\<in>set (fmt # comments @ [dim]). CHR 0x0A \<notin> set l" and nld: "\<forall>l\<in>set data. CHR 0x0A \<notin> set l"
    using nl by simp_all
  from read_header_lines [OF nl' comments dim, where 'a = 'a] obtain h :: "(error + 'a word Header) option"
    where h: "\<And>t. (read_header (open_stream (unlines (fmt # comments @ [dim]) @ t))
              :: (error + 'a word Header \<times> istream) option) =
           (case h of
              None \<Rightarrow> None
            | Some (Inl e) \<Rightarrow> Some (Inl e)
            | Some (Inr header) \<Rightarrow> Some (Inr (header, open_stream t)))"
      and n: "\<And>header. h = Some (Inr header) \<Longrightarrow>
              length (Tokens dim CHR '' '') = 3 \<and>
              Header.num_nonzeros header = parse_int (Tokens dim CHR '' '' ! 2)"
    by blast
  have len: "length data = unat (Header.num_nonzeros header)" if "h = Some (Inr header)" for header
    using n [OF that] count by simp
  have coo: "(read_coo pn (?c t) :: (error + 'a word Header \<times> ('a word, 'v) Nonzero list) option) =
             (case h of
                None \<Rightarrow> None
              | Some (Inl e) \<Rightarrow> Some (Inl e)
              | Some (Inr header) \<Rightarrow>
                  (case read_entries pn header data of
                     Inl e \<Rightarrow> Some (Inl e)
                   | Inr es \<Rightarrow> Some (Inr (header, es))))" for t
  proof (cases h)
    case None
    then show ?thesis
      by (simp add: read_coo_def split h)
  next
    case (Some a)
    show ?thesis
    proof (cases a)
      case (Inl e)
      then show ?thesis
        by (simp add: read_coo_def split h Some)
    next
      case (Inr header)
      have "read_header (open_stream (?c t)) = Some (Inr (header, open_stream (unlines data @ t)))"
        by (simp add: split h Some Inr)
      from read_coo_lines [OF this len nld, of pn] show ?thesis
        by (simp add: Some Inr)
    qed
  qed
  have 1: "read_csr pn srt (Some (?c rest)) = read_csr pn srt (Some (?c rest'))"
    unfolding read_csr_coo coo ..
  have 2: "read_csc pn srt (Some (?c rest)) = read_csc pn srt (Some (?c rest'))"
    unfolding read_csc_coo coo ..
  have 3: "f = open_stream (unlines data @ rest) \<and>
            (\<forall>nonzeros f'. read_nonzeros pn header 0 f [] = Inr (nonzeros, f') \<longrightarrow> f' = open_stream rest)"
    if r: "read_header (open_stream (?c rest)) = Some (Inr (header, f))"
    for header :: "'a word Header" and f
  proof -
    from r have hh: "h = Some (Inr header)" and f: "f = open_stream (unlines data @ rest)"
      by (auto simp: split h split: option.splits sum.splits)
    have "read_nonzeros pn header 0 (open_stream (unlines data @ rest)) [] =
           (case read_entries pn header data of
              Inl e \<Rightarrow> Inl e
            | Inr es \<Rightarrow> Inr (es, open_stream rest))"
      using nld len [OF hh] by (rule read_nonzeros_all)
    then show ?thesis
      by (auto simp: f split: sum.splits)
  qed
  from 1 2 3 show ?thesis
    by blast
qed

theorem C10_trailing_content_witness:
  "read_csr (parse_int :: string \<Rightarrow> 32 word) insertion_sort
     (Some (unlines [''%%MatrixMarket matrix coordinate real general'', ''% a comment'', ''3 3 2'',
                     ''1 1 5.0'', ''2 3 7.0''] @ ''3 3 9.0'')) =
   Some (Inr \<lparr>CSRMatrix.num_rows = 3 :: 32 word, CSRMatrix.num_cols = 3, CSRMatrix.num_nonzeros = 2,
               row_offsets = [0, 1, 2, 2], col_indices = [0, 2], CSRMatrix.values = [5, 7]\<rparr>)"
proof -
  let ?pn = "parse_int :: string \<Rightarrow> 32 word"
  let ?fmt = "''%%MatrixMarket matrix coordinate real general''"
  let ?comments = "[''% a comment'']"
  let ?dim = "''3 3 2''"
  let ?data = "[''1 1 5.0'', ''2 3 7.0'']"
  have nl: "\<forall>l\<in>set (?fmt # ?comments @ ?dim # ?data). CHR 0x0A \<notin> set l"
    by simp
  have comments: "\<forall>l\<in>set ?comments. front_char l = CHR ''%''"
    by (simp add: front_char_def)
  have dim: "front_char ?dim \<noteq> CHR ''%''"
    by (simp add: front_char_def)
  have t: "Tokens ?dim CHR '' '' = [''3'', ''3'', ''2'']"
    by (simp add: eval_simps)
  have "(parse_int ''2'' :: 32 word) = 2"
    by (simp add: eval_simps)
  then have count: "length (Tokens ?dim CHR '' '') = 3 \<longrightarrow>
                length ?data = unat (parse_int (Tokens ?dim CHR '' '' ! 2) :: 32 word)"
    by (simp add: t)
  have e: "read_csr ?pn insertion_sort (Some (unlines (?fmt # ?comments @ ?dim # ?data) @ [])) =
      Some (Inr \<lparr>CSRMatrix.num_rows = 3 :: 32 word, CSRMatrix.num_cols = 3, CSRMatrix.num_nonzeros = 2,
               row_offsets = [0, 1, 2, 2], col_indices = [0, 2], CSRMatrix.values = [5, 7]\<rparr>)"
    by (simp add: compress_simps eval_simps Let_def)
  from C10_trailing_content [OF nl comments dim count, of ?pn insertion_sort "''3 3 9.0''" "[]"]
  have "(read_csr ?pn insertion_sort (Some (unlines (?fmt # ?comments @ ?dim # ?data) @ ''3 3 9.0''))
          :: (error + (32 word, 32 word) CSRMatrix) option) =
        read_csr ?pn insertion_sort (Some (unlines (?fmt # ?comments @ ?dim # ?data) @ []))"
    by blast
  with e show ?thesis
    by simp
qed

end
